theory Spec2Isabelle
  imports Main "HOL-Library.Word"
begin

unbundle bit_operations_syntax

section \<open>The cache simulator csim.c as HOL functions\<close>

text \<open>
  The program keeps its cache and its counters in global variables.  The model threads
  them through every function as one record.  C leaves three things undefined that the
  program can run into: a shift by a negative count or by at least the width of the
  shifted type, the increment of an \<open>int\<close> that holds \<open>INT_MAX\<close>, and an access
  outside an allocated array.  Each of them is a value of \<open>error\<close>, and every function
  that can meet one returns \<open>error + 'a\<close>.
\<close>

subsection \<open>Data\<close>

datatype error = UndefinedShift | SignedOverflow | OutOfBounds | MissingArgument

text \<open>
  \<open>typedef struct { bool valid_bit; int tag; int lri; } block\<close>.
  The tag is a 32-bit pattern: it is assigned from an \<open>unsigned int\<close> and compared with
  one, so only the bits matter.  \<open>lri\<close> is compared as a signed number and is
  an \<open>int\<close> whose increments are checked against \<open>INT_MAX\<close>.
\<close>

record block =
  valid_bit :: bool
  tag :: "32 word"
  lri :: int

text \<open>\<open>typedef struct { unsigned int index; block *arr_blocks; } set\<close>\<close>

record cache_set =
  index :: "32 word"
  arr_blocks :: "block list"

datatype access_type = LOAD | STORE | MODIFY

text \<open>
  \<open>typedef struct { enum {LOAD, STORE, MODIFY} type; unsigned long address; bool end; }
  trace_line\<close>.  The field \<open>end\<close> is called \<open>is_end\<close> here.
\<close>

record trace_line =
  type :: access_type
  address :: "64 word"
  is_end :: bool

text \<open>
  The global variables.  \<open>tag_index\<close> is the array \<open>unsigned int tag_index[2]\<close>:
  its first component is \<open>tag_index[0]\<close> (the tag), its second \<open>tag_index[1]\<close>
  (the set index).
\<close>

record globals =
  sets :: int
  lines :: int
  block_bits :: int
  lri_count :: int
  miss :: int
  hit :: int
  evictions :: int
  tag_index :: "32 word \<times> 32 word"
  cache :: "cache_set list"

definition INT_MAX :: int where
  "INT_MAX = 2147483647"

text \<open>\<open>x++\<close> on an \<open>int\<close>: undefined when \<open>x\<close> is \<open>INT_MAX\<close>.\<close>

definition incr :: "int \<Rightarrow> error + int" where
  "incr x = (if x < INT_MAX then Inr (x + 1) else Inl SignedOverflow)"

text \<open>\<open>1 << n\<close> on an \<open>int\<close>: defined when the result fits, that is for \<open>0 \<le> n < 31\<close>.\<close>

definition shl_int_1 :: "int \<Rightarrow> error + int" where
  "shl_int_1 n = (if 0 \<le> n \<and> n < 31 then Inr (2 ^ nat n) else Inl UndefinedShift)"

subsection \<open>\<open>cache_init\<close>\<close>

definition empty_block :: block where
  "empty_block = \<lparr>valid_bit = False, tag = - 1, lri = - 1\<rparr>"

text \<open>
  The two nested loops of \<open>cache_init\<close>: set \<open>i\<close> gets the index \<open>i\<close> and an array of
  \<open>lines\<close> blocks (none when \<open>lines \<le> 0\<close>: the inner loop does not run), every block
  invalid with tag and lri \<open>-1\<close>.
\<close>

definition cache_init :: "int \<Rightarrow> int \<Rightarrow> int \<Rightarrow> globals \<Rightarrow> error + globals" where
  "cache_init s E b g =
     (case shl_int_1 s of
        Inl e \<Rightarrow> Inl e
      | Inr n \<Rightarrow>
         (case shl_int_1 b of
            Inl e \<Rightarrow> Inl e
          | Inr bb \<Rightarrow>
             Inr (g\<lparr>sets := n, lines := E, block_bits := bb,
                    cache := map (\<lambda>i. \<lparr>index = of_nat i,
                                         arr_blocks = replicate (nat E) empty_block\<rparr>)
                                 [0..<nat n]\<rparr>)))"

subsection \<open>\<open>parse_address\<close>\<close>

text \<open>
  \<open>set_index = (address >> b) & ~(~0ul << s); tag = address >> (s + b);\<close>
  Both results are stored in \<open>unsigned int\<close> variables, which keeps their low 32 bits.
  The three shifts are on \<open>unsigned long\<close> (64 bits): each count must lie in \<open>0..63\<close>.
\<close>

definition parse_address :: "64 word \<Rightarrow> int \<Rightarrow> int \<Rightarrow> globals \<Rightarrow> error + globals" where
  "parse_address a s b g =
     (if b < 0 \<or> 64 \<le> b \<or> s < 0 \<or> 64 \<le> s \<or> s + b < 0 \<or> 64 \<le> s + b
      then Inl UndefinedShift
      else
        let set_index = (ucast (drop_bit (nat b) a AND NOT (push_bit (nat s) (NOT 0))) :: 32 word);
            tg = (ucast (drop_bit (nat (s + b)) a) :: 32 word)
        in Inr (g\<lparr>tag_index := (tg, set_index)\<rparr>))"

subsection \<open>The three loops over the lines of a set\<close>

text \<open>
  \<open>for (int i = 0; i < lines; i++) { if (current_line->tag == tag_index[0] &&
  current_line->valid_bit) {... break;} current_line++; }\<close>:
  the index of the first line that hits, \<open>None\<close> when the loop runs to its end.
\<close>

function find_hit :: "block list \<Rightarrow> 32 word \<Rightarrow> int \<Rightarrow> nat \<Rightarrow> error + nat option" where
  "find_hit bs t n i =
     (if int i < n then
        (if i < length bs then
           (if tag (bs ! i) = t \<and> valid_bit (bs ! i) then Inr (Some i)
            else find_hit bs t n (i + 1))
         else Inl OutOfBounds)
      else Inr None)"
  by pat_completeness auto
termination
  by (relation "measure (\<lambda>(bs, t, n, i). nat (n - int i))") auto

text \<open>
  \<open>for (int i = 0; i < lines; i++) { if (!current_line->valid_bit) {... break;}
  current_line++; }\<close>: the index of the first invalid line.
\<close>

function find_empty :: "block list \<Rightarrow> int \<Rightarrow> nat \<Rightarrow> error + nat option" where
  "find_empty bs n i =
     (if int i < n then
        (if i < length bs then
           (if \<not> valid_bit (bs ! i) then Inr (Some i)
            else find_empty bs n (i + 1))
         else Inl OutOfBounds)
      else Inr None)"
  by pat_completeness auto
termination
  by (relation "measure (\<lambda>(bs, n, i). nat (n - int i))") auto

text \<open>
  \<open>for (int i = 1; i < lines; i++) { if (current_line->lri < min_lri->lri)
  min_lri = current_line; current_line++; }\<close>: \<open>m\<close> is the index \<open>min_lri\<close> points to.
\<close>

function find_min :: "block list \<Rightarrow> int \<Rightarrow> nat \<Rightarrow> nat \<Rightarrow> error + nat" where
  "find_min bs n i m =
     (if int i < n then
        (if i < length bs \<and> m < length bs then
           find_min bs n (i + 1) (if lri (bs ! i) < lri (bs ! m) then i else m)
         else Inl OutOfBounds)
      else Inr m)"
  by pat_completeness auto
termination
  by (relation "measure (\<lambda>(bs, n, i, m). nat (n - int i))") auto

subsection \<open>One access: the body of \<open>parse_trace\<close> from the label \<open>start\<close>\<close>

text \<open>Writing the array of blocks of set \<open>k\<close> back.\<close>

definition set_blocks :: "nat \<Rightarrow> block list \<Rightarrow> globals \<Rightarrow> globals" where
  "set_blocks k bs g = g\<lparr>cache := (cache g)[k := (cache g ! k)\<lparr>arr_blocks := bs\<rparr>]\<rparr>"

text \<open>
  Lines 275 to 343 of csim.c.  The set is \<open>cache[tag_index[1]]\<close>; the verbose output
  is not modelled.
\<close>

definition access_step :: "globals \<Rightarrow> error + globals" where
  "access_step g =
     (let t = fst (tag_index g); k = unat (snd (tag_index g)) in
      if \<not> k < length (cache g) then Inl OutOfBounds
      else
        let bs = arr_blocks (cache g ! k) in
        case find_hit bs t (lines g) 0 of
          Inl e \<Rightarrow> Inl e
        | Inr (Some i) \<Rightarrow>
           (case incr (hit g) of
              Inl e \<Rightarrow> Inl e
            | Inr h \<Rightarrow>
               (case incr (lri_count g) of
                  Inl e \<Rightarrow> Inl e
                | Inr c \<Rightarrow>
                   Inr (set_blocks k (bs[i := (bs ! i)\<lparr>lri := lri_count g\<rparr>])
                          (g\<lparr>hit := h, lri_count := c\<rparr>))))
        | Inr None \<Rightarrow>
           (case incr (miss g) of
              Inl e \<Rightarrow> Inl e
            | Inr ms \<Rightarrow>
               (case find_empty bs (lines g) 0 of
                  Inl e \<Rightarrow> Inl e
                | Inr (Some i) \<Rightarrow>
                   (case incr (lri_count g) of
                      Inl e \<Rightarrow> Inl e
                    | Inr c \<Rightarrow>
                       Inr (set_blocks k
                              (bs[i := (bs ! i)\<lparr>tag := t, valid_bit := True, lri := lri_count g\<rparr>])
                              (g\<lparr>miss := ms, lri_count := c\<rparr>)))
                | Inr None \<Rightarrow>
                   (case incr (evictions g) of
                      Inl e \<Rightarrow> Inl e
                    | Inr ev \<Rightarrow>
                       (case (if 1 < lines g then find_min bs (lines g) 1 0 else Inr 0) of
                          Inl e \<Rightarrow> Inl e
                        | Inr m \<Rightarrow>
                           if \<not> m < length bs then Inl OutOfBounds
                           else
                             (case incr (lri_count g) of
                                Inl e \<Rightarrow> Inl e
                              | Inr c \<Rightarrow>
                                 Inr (set_blocks k
                                        (bs[m := (bs ! m)\<lparr>tag := t, lri := lri_count g\<rparr>])
                                        (g\<lparr>miss := ms, evictions := ev, lri_count := c\<rparr>))))))))"

subsection \<open>\<open>parse_trace\<close>\<close>

text \<open>
  \<open>start: ...; if (is_type_m) { is_type_m = false; goto start; }\<close>: one access, and a
  second one when the flag is set.  The flag is returned as the code leaves it.
\<close>

function from_start :: "bool \<Rightarrow> globals \<Rightarrow> error + (bool \<times> globals)" where
  "from_start is_type_m g =
     (case access_step g of
        Inl e \<Rightarrow> Inl e
      | Inr g' \<Rightarrow> if is_type_m then from_start False g' else Inr (is_type_m, g'))"
  by pat_completeness auto
termination
  by (relation "measure (\<lambda>(m, g). if m then 1 else 0)") auto

text \<open>
  \<open>while (!trace->end) { if (trace->type == 2) is_type_m = true;
  parse_address(trace->address, s, b); start: ...; trace++; }\<close>.
  The trace is the array that \<open>read_trace\<close> builds; reading past its last element is
  an access out of bounds.
\<close>

fun parse_trace_loop ::
  "trace_line list \<Rightarrow> int \<Rightarrow> int \<Rightarrow> bool \<Rightarrow> globals \<Rightarrow> error + globals" where
  "parse_trace_loop [] s b is_type_m g = Inl OutOfBounds"
| "parse_trace_loop (l # trace) s b is_type_m g =
     (if is_end l then Inr g
      else
        (case parse_address (address l) s b g of
           Inl e \<Rightarrow> Inl e
         | Inr g1 \<Rightarrow>
            (case from_start (if type l = MODIFY then True else is_type_m) g1 of
               Inl e \<Rightarrow> Inl e
             | Inr (is_type_m', g2) \<Rightarrow> parse_trace_loop trace s b is_type_m' g2)))"

definition parse_trace :: "trace_line list \<Rightarrow> int \<Rightarrow> int \<Rightarrow> bool \<Rightarrow> globals \<Rightarrow> error + globals" where
  "parse_trace trace s b is_verbose g = parse_trace_loop trace s b False g"

subsection \<open>\<open>main\<close>\<close>

text \<open>
  The globals as the C runtime and the first statements of \<open>main\<close> leave them: all zero,
  no cache.
\<close>

definition initial_globals :: globals where
  "initial_globals =
     \<lparr>sets = 0, lines = 0, block_bits = 0, lri_count = 0, miss = 0, hit = 0, evictions = 0,
      tag_index = (0, 0), cache = []\<rparr>"

text \<open>
  \<open>main\<close> after option parsing: \<open>argc\<close>, the values of \<open>-s\<close>, \<open>-E\<close>, \<open>-b\<close> (each
  \<open>-1\<close> when the option is absent), the verbose flag and the array \<open>read_trace\<close>
  returned.  The result is what \<open>printSummary(hit, miss, evictions)\<close> is called with.
\<close>

definition csim_main ::
  "int \<Rightarrow> int \<Rightarrow> int \<Rightarrow> int \<Rightarrow> bool \<Rightarrow> trace_line list \<Rightarrow> error + (int \<times> int \<times> int)" where
  "csim_main argc s E b is_verbose trace =
     (if argc = 1 then Inl MissingArgument
      else
        (case cache_init s E b initial_globals of
           Inl e \<Rightarrow> Inl e
         | Inr g0 \<Rightarrow>
            (case parse_trace trace s b is_verbose g0 of
               Inl e \<Rightarrow> Inl e
             | Inr g \<Rightarrow> Inr (hit g, miss g, evictions g))))"

text \<open>
  The array \<open>read_trace\<close> returns for a file whose data lines are \<open>evs\<close>: one element
  per line with \<open>end = false\<close>, then the element with \<open>end = true\<close> (its other
  fields are not written by \<open>read_trace\<close> and not read by \<open>parse_trace\<close>).
\<close>

definition end_line :: trace_line where
  "end_line = \<lparr>type = LOAD, address = 0, is_end = True\<rparr>"

definition event :: "access_type \<Rightarrow> 64 word \<Rightarrow> trace_line" where
  "event k a = \<lparr>type = k, address = a, is_end = False\<rparr>"

definition trace_of :: "(access_type \<times> 64 word) list \<Rightarrow> trace_line list" where
  "trace_of evs = map (\<lambda>(k, a). event k a) evs @ [end_line]"

section \<open>Notions the properties are stated with\<close>

text \<open>The events of a trace: the array elements before the first one marked as end.\<close>

definition events :: "trace_line list \<Rightarrow> trace_line list" where
  "events trace = takeWhile (\<lambda>l. \<not> is_end l) trace"

definition count_load_store :: "trace_line list \<Rightarrow> nat" where
  "count_load_store trace = length (filter (\<lambda>l. type l \<noteq> MODIFY) (events trace))"

definition count_modify :: "trace_line list \<Rightarrow> nat" where
  "count_modify trace = length (filter (\<lambda>l. type l = MODIFY) (events trace))"

text \<open>The accesses a trace asks for: one for a load or a store, two for a modify.\<close>

definition count_accesses :: "trace_line list \<Rightarrow> nat" where
  "count_accesses trace = count_load_store trace + 2 * count_modify trace"

text \<open>No counter overflows within \<open>n\<close> more accesses.\<close>

definition room_for :: "globals \<Rightarrow> nat \<Rightarrow> bool" where
  "room_for g n \<longleftrightarrow>
     hit g + int n \<le> INT_MAX \<and> miss g + int n \<le> INT_MAX \<and>
     evictions g + int n \<le> INT_MAX \<and> lri_count g + int n \<le> INT_MAX"

text \<open>Line \<open>i\<close> of set \<open>k\<close>, and all lines of the cache, set after set.\<close>

definition line_at :: "globals \<Rightarrow> nat \<Rightarrow> nat \<Rightarrow> block" where
  "line_at g k i = arr_blocks (cache g ! k) ! i"

definition all_blocks :: "globals \<Rightarrow> block list" where
  "all_blocks g = concat (map arr_blocks (cache g))"

text \<open>No two valid lines of one set hold the same tag.\<close>

definition unique_tags :: "globals \<Rightarrow> bool" where
  "unique_tags g =
     list_all (\<lambda>cs. distinct (map tag (filter valid_bit (arr_blocks cs)))) (cache g)"

text \<open>No two valid lines of the whole cache hold the same recency stamp.\<close>

definition unique_recency :: "globals \<Rightarrow> bool" where
  "unique_recency g = distinct (map lri (filter valid_bit (all_blocks g)))"

text \<open>Every stamp in the cache is older than the counter.\<close>

definition stamps_below :: "globals \<Rightarrow> bool" where
  "stamps_below g = list_all (\<lambda>bl. lri bl < lri_count g) (all_blocks g)"

text \<open>Every set has the \<open>lines\<close> blocks that \<open>cache_init\<close> allocated for it.\<close>

definition shape_ok :: "globals \<Rightarrow> bool" where
  "shape_ok g = list_all (\<lambda>cs. length (arr_blocks cs) = nat (lines g)) (cache g)"

definition cache_inv :: "globals \<Rightarrow> bool" where
  "cache_inv g \<longleftrightarrow> shape_ok g \<and> stamps_below g \<and> unique_recency g \<and> unique_tags g"

text \<open>
  The states of a run with the options \<open>s\<close>, \<open>E\<close>, \<open>b\<close>: the state \<open>cache_init\<close>
  leaves, and every state that a call of \<open>parse_address\<close> or one access leads to from
  such a state.  These are the states at the loop head of \<open>parse_trace\<close>, at the label
  \<open>start\<close> and after each access, whatever the trace is.
\<close>

inductive reachable :: "int \<Rightarrow> int \<Rightarrow> int \<Rightarrow> globals \<Rightarrow> bool" for s E b where
  reach_init: "cache_init s E b initial_globals = Inr g \<Longrightarrow> reachable s E b g"
| reach_address: "reachable s E b g \<Longrightarrow> parse_address a s b g = Inr g' \<Longrightarrow> reachable s E b g'"
| reach_access: "reachable s E b g \<Longrightarrow> access_step g = Inr g' \<Longrightarrow> reachable s E b g'"

text \<open>
  Two states of a cache with one set of two lines (\<open>s = 0\<close>, \<open>E = 2\<close>, \<open>b = 0\<close>):
  as \<open>cache_init\<close> leaves it, and after loads from the addresses 1 and 2.
\<close>

definition two_way_fresh :: globals where
  "two_way_fresh =
     \<lparr>sets = 1, lines = 2, block_bits = 1, lri_count = 0, miss = 0, hit = 0, evictions = 0,
      tag_index = (0, 0),
      cache = [\<lparr>index = 0, arr_blocks = [\<lparr>valid_bit = False, tag = - 1, lri = - 1\<rparr>,
                                        \<lparr>valid_bit = False, tag = - 1, lri = - 1\<rparr>]\<rparr>]\<rparr>"

definition two_way_full :: globals where
  "two_way_full =
     \<lparr>sets = 1, lines = 2, block_bits = 1, lri_count = 2, miss = 2, hit = 0, evictions = 0,
      tag_index = (2, 0),
      cache = [\<lparr>index = 0, arr_blocks = [\<lparr>valid_bit = True, tag = 1, lri = 0\<rparr>,
                                        \<lparr>valid_bit = True, tag = 2, lri = 1\<rparr>]\<rparr>]\<rparr>"

text \<open>The second of these states after one more access to the tag 2, which hits.\<close>

definition two_way_hit :: globals where
  "two_way_hit =
     \<lparr>sets = 1, lines = 2, block_bits = 1, lri_count = 3, miss = 2, hit = 1, evictions = 0,
      tag_index = (2, 0),
      cache = [\<lparr>index = 0, arr_blocks = [\<lparr>valid_bit = True, tag = 1, lri = 0\<rparr>,
                                        \<lparr>valid_bit = True, tag = 2, lri = 2\<rparr>]\<rparr>]\<rparr>"

text \<open>The fresh two-line set after one access to the tag 0, which fills the first line.\<close>

definition two_way_filled :: globals where
  "two_way_filled =
     \<lparr>sets = 1, lines = 2, block_bits = 1, lri_count = 1, miss = 1, hit = 0, evictions = 0,
      tag_index = (0, 0),
      cache = [\<lparr>index = 0, arr_blocks = [\<lparr>valid_bit = True, tag = 0, lri = 0\<rparr>,
                                        \<lparr>valid_bit = False, tag = - 1, lri = - 1\<rparr>]\<rparr>]\<rparr>"

text \<open>
  The full two-line set asked for the tag 3, after the access that evicts the older line
  for it, and after a second access to the same tag.
\<close>

definition two_way_asked :: globals where
  "two_way_asked = two_way_full\<lparr>tag_index := (3, 0)\<rparr>"

definition two_way_evicted :: globals where
  "two_way_evicted =
     \<lparr>sets = 1, lines = 2, block_bits = 1, lri_count = 3, miss = 3, hit = 0, evictions = 1,
      tag_index = (3, 0),
      cache = [\<lparr>index = 0, arr_blocks = [\<lparr>valid_bit = True, tag = 3, lri = 2\<rparr>,
                                        \<lparr>valid_bit = True, tag = 2, lri = 1\<rparr>]\<rparr>]\<rparr>"

definition two_way_evicted_hit :: globals where
  "two_way_evicted_hit =
     \<lparr>sets = 1, lines = 2, block_bits = 1, lri_count = 4, miss = 3, hit = 1, evictions = 1,
      tag_index = (3, 0),
      cache = [\<lparr>index = 0, arr_blocks = [\<lparr>valid_bit = True, tag = 3, lri = 3\<rparr>,
                                        \<lparr>valid_bit = True, tag = 2, lri = 1\<rparr>]\<rparr>]\<rparr>"

section \<open>Auxiliary facts\<close>

declare find_hit.simps [simp del] find_empty.simps [simp del] find_min.simps [simp del]
  from_start.simps [simp del]

lemmas run_defs = csim_main_def cache_init_def shl_int_1_def initial_globals_def trace_of_def
  event_def end_line_def parse_trace_def parse_address_def access_step_def incr_def INT_MAX_def
  set_blocks_def empty_block_def Let_def find_hit.simps find_empty.simps find_min.simps
  from_start.simps

lemma distinct_map_filter_iff:
  "distinct (map f (filter P xs)) \<longleftrightarrow>
     (\<forall>i<length xs. \<forall>j<length xs. i \<noteq> j \<and> P (xs ! i) \<and> P (xs ! j) \<longrightarrow> f (xs ! i) \<noteq> f (xs ! j))"
proof (induction xs)
  case Nil
  show ?case by simp
next
  case (Cons x xs)
  have split: "(\<forall>i<length (x # xs). Q i) \<longleftrightarrow> Q 0 \<and> (\<forall>i<length xs. Q (Suc i))" for Q
    by (auto simp add: less_Suc_eq_0_disj)
  show ?case
    unfolding split
    using Cons.IH
    by (auto simp add: in_set_conv_nth image_iff)
qed

lemma distinct_map_filter_update:
  assumes "distinct (map f (filter P xs))"
    and "P x \<Longrightarrow> \<forall>j<length xs. j \<noteq> i \<and> P (xs ! j) \<longrightarrow> f (xs ! j) \<noteq> f x"
  shows "distinct (map f (filter P (xs[i := x])))"
  unfolding distinct_map_filter_iff
proof (intro allI impI)
  fix a b
  assume a: "a < length (xs[i := x])" and b: "b < length (xs[i := x])"
    and ab: "a \<noteq> b \<and> P (xs[i := x] ! a) \<and> P (xs[i := x] ! b)"
  from assms(1) have old: "\<And>c d. c < length xs \<Longrightarrow> d < length xs \<Longrightarrow> c \<noteq> d \<Longrightarrow>
      P (xs ! c) \<Longrightarrow> P (xs ! d) \<Longrightarrow> f (xs ! c) \<noteq> f (xs ! d)"
    unfolding distinct_map_filter_iff by blast
  consider "a = i" | "b = i" "a \<noteq> i" | "a \<noteq> i" "b \<noteq> i"
    by blast
  then show "f (xs[i := x] ! a) \<noteq> f (xs[i := x] ! b)"
  proof cases
    case 1
    with a b ab assms(2) show ?thesis
      by (auto simp add: nth_list_update)
  next
    case 2
    with a b ab assms(2) show ?thesis
      by (auto simp add: nth_list_update)
  next
    case 3
    with a b ab old [of a b] show ?thesis
      by (auto simp add: nth_list_update)
  qed
qed

lemma concat_update:
  "k < length xss \<Longrightarrow> i < length (xss ! k) \<Longrightarrow>
     concat (xss[k := (xss ! k)[i := x]]) = (concat xss)[length (concat (take k xss)) + i := x]"
proof (induction xss arbitrary: k)
  case Nil
  then show ?case by simp
next
  case (Cons xs xss)
  show ?case
  proof (cases k)
    case 0
    with Cons.prems show ?thesis by (simp add: list_update_append)
  next
    case (Suc k')
    with Cons.prems Cons.IH [of k'] show ?thesis
      by (simp add: list_update_append)
  qed
qed

lemma nth_concat_offset:
  "k < length xss \<Longrightarrow> i < length (xss ! k) \<Longrightarrow>
     length (concat (take k xss)) + i < length (concat xss) \<and>
     concat xss ! (length (concat (take k xss)) + i) = xss ! k ! i"
proof (induction xss arbitrary: k)
  case Nil
  then show ?case by simp
next
  case (Cons xs xss)
  show ?case
  proof (cases k)
    case 0
    with Cons.prems show ?thesis by (simp add: nth_append)
  next
    case (Suc k')
    with Cons.prems Cons.IH [of k'] show ?thesis
      by (simp add: nth_append)
  qed
qed




lemma find_hit_Some:
  "find_hit bs t n i = Inr (Some j) \<Longrightarrow>
     i \<le> j \<and> int j < n \<and> j < length bs \<and> tag (bs ! j) = t \<and> valid_bit (bs ! j) \<and>
     (\<forall>l. i \<le> l \<and> l < j \<longrightarrow> \<not> (tag (bs ! l) = t \<and> valid_bit (bs ! l)))"
proof (induction bs t n i rule: find_hit.induct)
  case (1 bs t n i)
  show ?case
  proof (cases "tag (bs ! i) = t \<and> valid_bit (bs ! i)")
    case True
    with "1.prems" show ?thesis
      by (subst (asm) find_hit.simps) (auto split: if_splits)
  next
    case False
    with "1.prems" have c: "int i < n" "i < length bs" and r: "find_hit bs t n (i + 1) = Inr (Some j)"
      by (subst (asm) find_hit.simps, auto split: if_splits)+
    from "1.IH" [OF c False r] have IH: "i < j" "int j < n" "j < length bs" "tag (bs ! j) = t"
      "valid_bit (bs ! j)" "\<And>l. i < l \<Longrightarrow> l < j \<Longrightarrow> \<not> (tag (bs ! l) = t \<and> valid_bit (bs ! l))"
      by (simp_all add: Suc_le_eq)
    have "\<not> (tag (bs ! l) = t \<and> valid_bit (bs ! l))" if "i \<le> l" "l < j" for l
      using that IH(6) [of l] False by (cases "l = i") auto
    with IH show ?thesis by simp
  qed
qed

lemma find_hit_None:
  "find_hit bs t n i = Inr None \<Longrightarrow>
     (\<forall>l. i \<le> l \<and> int l < n \<longrightarrow> l < length bs \<and> \<not> (tag (bs ! l) = t \<and> valid_bit (bs ! l)))"
proof (induction bs t n i rule: find_hit.induct)
  case (1 bs t n i)
  show ?case
  proof (cases "int i < n")
    case True
    with "1.prems" have c: "i < length bs" and f: "\<not> (tag (bs ! i) = t \<and> valid_bit (bs ! i))"
      and r: "find_hit bs t n (i + 1) = Inr None"
      by (subst (asm) find_hit.simps, auto split: if_splits)+
    from "1.IH" [OF True c f r]
    have IH: "\<And>l. i < l \<Longrightarrow> int l < n \<Longrightarrow> l < length bs \<and> \<not> (tag (bs ! l) = t \<and> valid_bit (bs ! l))"
      by (simp add: Suc_le_eq)
    have "l < length bs \<and> \<not> (tag (bs ! l) = t \<and> valid_bit (bs ! l))" if "i \<le> l" "int l < n" for l
      using that IH [of l] c f by (cases "l = i") auto
    then show ?thesis by simp
  next
    case False
    then show ?thesis by auto
  qed
qed

lemma find_hit_total:
  "n \<le> int (length bs) \<Longrightarrow> \<exists>r. find_hit bs t n i = Inr r"
proof (induction bs t n i rule: find_hit.induct)
  case (1 bs t n i)
  then show ?case
    by (subst find_hit.simps) auto
qed

lemma find_empty_Some:
  "find_empty bs n i = Inr (Some j) \<Longrightarrow>
     i \<le> j \<and> int j < n \<and> j < length bs \<and> \<not> valid_bit (bs ! j) \<and>
     (\<forall>l. i \<le> l \<and> l < j \<longrightarrow> valid_bit (bs ! l))"
proof (induction bs n i rule: find_empty.induct)
  case (1 bs n i)
  show ?case
  proof (cases "valid_bit (bs ! i)")
    case False
    with "1.prems" show ?thesis
      by (subst (asm) find_empty.simps) (auto split: if_splits)
  next
    case True
    with "1.prems" have c: "int i < n" "i < length bs" and r: "find_empty bs n (i + 1) = Inr (Some j)"
      by (subst (asm) find_empty.simps, auto split: if_splits)+
    from "1.IH" [OF c _ r] True have IH: "i < j" "int j < n" "j < length bs"
      "\<not> valid_bit (bs ! j)" "\<And>l. i < l \<Longrightarrow> l < j \<Longrightarrow> valid_bit (bs ! l)"
      by (simp_all add: Suc_le_eq)
    have "valid_bit (bs ! l)" if "i \<le> l" "l < j" for l
      using that IH(5) [of l] True by (cases "l = i") auto
    with IH show ?thesis by simp
  qed
qed

lemma find_empty_None:
  "find_empty bs n i = Inr None \<Longrightarrow>
     (\<forall>l. i \<le> l \<and> int l < n \<longrightarrow> l < length bs \<and> valid_bit (bs ! l))"
proof (induction bs n i rule: find_empty.induct)
  case (1 bs n i)
  show ?case
  proof (cases "int i < n")
    case True
    with "1.prems" have c: "i < length bs" and f: "valid_bit (bs ! i)"
      and r: "find_empty bs n (i + 1) = Inr None"
      by (subst (asm) find_empty.simps, auto split: if_splits)+
    from "1.IH" [OF True c _ r] f
    have IH: "\<And>l. i < l \<Longrightarrow> int l < n \<Longrightarrow> l < length bs \<and> valid_bit (bs ! l)"
      by (simp add: Suc_le_eq)
    have "l < length bs \<and> valid_bit (bs ! l)" if "i \<le> l" "int l < n" for l
      using that IH [of l] c f by (cases "l = i") auto
    then show ?thesis by simp
  next
    case False
    then show ?thesis by auto
  qed
qed

lemma find_empty_total:
  "n \<le> int (length bs) \<Longrightarrow> \<exists>r. find_empty bs n i = Inr r"
proof (induction bs n i rule: find_empty.induct)
  case (1 bs n i)
  then show ?case
    by (subst find_empty.simps) auto
qed

lemma find_min_result:
  "find_min bs n i m = Inr r \<Longrightarrow> m < i \<Longrightarrow> int i \<le> n \<Longrightarrow>
     m \<le> r \<and> int r < n \<and> (r < length bs \<or> r = m) \<and> lri (bs ! r) \<le> lri (bs ! m) \<and>
     (r \<noteq> m \<longrightarrow> lri (bs ! r) < lri (bs ! m)) \<and>
     (\<forall>l. i \<le> l \<and> int l < n \<longrightarrow> l < length bs \<and> lri (bs ! r) \<le> lri (bs ! l)) \<and>
     (\<forall>l. i \<le> l \<and> l < r \<longrightarrow> lri (bs ! r) < lri (bs ! l))"
proof (induction bs n i m arbitrary: r rule: find_min.induct)
  case (1 bs n i m)
  show ?case
  proof (cases "int i < n")
    case False
    with "1.prems" show ?thesis
      by (subst (asm) find_min.simps) auto
  next
    case True
    let ?m' = "if lri (bs ! i) < lri (bs ! m) then i else m"
    from True "1.prems" have c: "i < length bs \<and> m < length bs"
      and r: "find_min bs n (i + 1) ?m' = Inr r"
      by (subst (asm) find_min.simps, auto split: if_splits)+
    have "?m' < i + 1" using "1.prems" by auto
    moreover have "int (i + 1) \<le> n" using True by simp
    ultimately have IH: "?m' \<le> r" "int r < n" "r < length bs \<or> r = ?m'"
      "lri (bs ! r) \<le> lri (bs ! ?m')" "r \<noteq> ?m' \<Longrightarrow> lri (bs ! r) < lri (bs ! ?m')"
      "\<And>l. i < l \<Longrightarrow> int l < n \<Longrightarrow> l < length bs \<and> lri (bs ! r) \<le> lri (bs ! l)"
      "\<And>l. i < l \<Longrightarrow> l < r \<Longrightarrow> lri (bs ! r) < lri (bs ! l)"
      using "1.IH" [OF True c r] by (simp_all add: Suc_le_eq)
    have le_i: "lri (bs ! r) \<le> lri (bs ! i)"
      using IH(4) by (auto split: if_splits)
    have a1: "m \<le> r" using IH(1) "1.prems"(2) by (auto split: if_splits)
    have a3: "r < length bs \<or> r = m" using IH(3) c by (auto split: if_splits)
    have a4: "lri (bs ! r) \<le> lri (bs ! m)" using IH(4) by (auto split: if_splits)
    have a5: "lri (bs ! r) < lri (bs ! m)" if "r \<noteq> m"
      using IH(4,5) that by (cases "r = ?m'") (auto split: if_splits)
    have a6: "l < length bs \<and> lri (bs ! r) \<le> lri (bs ! l)" if "i \<le> l" "int l < n" for l
      using that IH(6) [of l] c le_i by (cases "l = i") auto
    have a7: "lri (bs ! r) < lri (bs ! l)" if "i \<le> l" "l < r" for l
    proof (cases "l = i")
      case False
      with that IH(7) [of l] show ?thesis by auto
    next
      case True
      with that have "r \<noteq> ?m'" using "1.prems"(2) by (auto split: if_splits)
      from IH(5) [OF this] True show ?thesis by (auto split: if_splits)
    qed
    from a1 IH(2) a3 a4 a5 a6 a7 show ?thesis by blast
  qed
qed


lemma find_min_total:
  "n \<le> int (length bs) \<Longrightarrow> m < length bs \<Longrightarrow> \<exists>r. find_min bs n i m = Inr r"
proof (induction bs n i m rule: find_min.induct)
  case (1 bs n i m)
  then show ?case
    by (subst find_min.simps) auto
qed

lemma incr_Inr: "incr x = Inr y \<longleftrightarrow> x < INT_MAX \<and> y = x + 1"
  by (auto simp add: incr_def)

lemma access_step_cases:
  assumes "access_step g = Inr g'"
  defines "t \<equiv> fst (tag_index g)" and "k \<equiv> unat (snd (tag_index g))"
  defines "bs \<equiv> arr_blocks (cache g ! k)"
  obtains
    (Hit) i where "k < length (cache g)" "find_hit bs t (lines g) 0 = Inr (Some i)"
      "g' = set_blocks k (bs[i := (bs ! i)\<lparr>lri := lri_count g\<rparr>])
              (g\<lparr>hit := hit g + 1, lri_count := lri_count g + 1\<rparr>)"
      "hit g < INT_MAX" "lri_count g < INT_MAX"
  | (Fill) i where "k < length (cache g)" "find_hit bs t (lines g) 0 = Inr None"
      "find_empty bs (lines g) 0 = Inr (Some i)"
      "g' = set_blocks k (bs[i := (bs ! i)\<lparr>tag := t, valid_bit := True, lri := lri_count g\<rparr>])
              (g\<lparr>miss := miss g + 1, lri_count := lri_count g + 1\<rparr>)"
      "miss g < INT_MAX" "lri_count g < INT_MAX"
  | (Evict) m where "k < length (cache g)" "find_hit bs t (lines g) 0 = Inr None"
      "find_empty bs (lines g) 0 = Inr None"
      "(if 1 < lines g then find_min bs (lines g) 1 0 else Inr 0) = Inr m" "m < length bs"
      "g' = set_blocks k (bs[m := (bs ! m)\<lparr>tag := t, lri := lri_count g\<rparr>])
              (g\<lparr>miss := miss g + 1, evictions := evictions g + 1, lri_count := lri_count g + 1\<rparr>)"
      "miss g < INT_MAX" "evictions g < INT_MAX" "lri_count g < INT_MAX"
  using assms(1) unfolding access_step_def Let_def t_def k_def bs_def
  by (auto simp add: incr_Inr split: if_splits sum.splits option.splits)


lemma set_blocks_fields [simp]:
  "cache (set_blocks k bs g) = (cache g)[k := (cache g ! k)\<lparr>arr_blocks := bs\<rparr>]"
  "lines (set_blocks k bs g) = lines g"
  "lri_count (set_blocks k bs g) = lri_count g"
  "hit (set_blocks k bs g) = hit g"
  "miss (set_blocks k bs g) = miss g"
  "evictions (set_blocks k bs g) = evictions g"
  "tag_index (set_blocks k bs g) = tag_index g"
  "sets (set_blocks k bs g) = sets g"
  "block_bits (set_blocks k bs g) = block_bits g"
  by (simp_all add: set_blocks_def)

lemma shape_ok_length:
  "shape_ok g \<Longrightarrow> k < length (cache g) \<Longrightarrow> length (arr_blocks (cache g ! k)) = nat (lines g)"
  by (simp add: shape_ok_def list_all_length)

lemma access_step_effect:
  assumes step: "access_step g = Inr g'" and shape: "shape_ok g"
  defines "t \<equiv> fst (tag_index g)" and "k \<equiv> unat (snd (tag_index g))"
  defines "bs \<equiv> arr_blocks (cache g ! k)"
  shows "\<exists>i blk. k < length (cache g) \<and> i < length bs \<and>
       cache g' = (cache g)[k := (cache g ! k)\<lparr>arr_blocks := bs[i := blk]\<rparr>] \<and>
       lines g' = lines g \<and> tag_index g' = tag_index g \<and>
       lri_count g' = lri_count g + 1 \<and> lri_count g < INT_MAX \<and>
       lri blk = lri_count g \<and> valid_bit blk \<and> tag blk = t \<and>
       (hit g' = hit g + 1 \<and> miss g' = miss g \<and> evictions g' = evictions g \<and>
          valid_bit (bs ! i) \<and> tag (bs ! i) = t
        \<or> hit g' = hit g \<and> miss g' = miss g + 1 \<and>
          (evictions g' = evictions g \<or> evictions g' = evictions g + 1) \<and>
          (\<forall>j<length bs. valid_bit (bs ! j) \<longrightarrow> tag (bs ! j) \<noteq> t))"
  using step
proof (cases rule: access_step_cases)
  case (Hit i)
  from find_hit_Some [OF Hit(2)] Hit show ?thesis
    by (intro exI [of _ i] exI [of _ "(arr_blocks (cache g ! unat (snd (tag_index g))) ! i)\<lparr>lri := lri_count g\<rparr>"])
       (simp add: t_def k_def bs_def)
next
  case (Fill i)
  have len: "length (arr_blocks (cache g ! unat (snd (tag_index g)))) = nat (lines g)"
    using shape Fill(1) by (rule shape_ok_length)
  have nohit: "\<forall>j<length (arr_blocks (cache g ! unat (snd (tag_index g)))).
      valid_bit (arr_blocks (cache g ! unat (snd (tag_index g))) ! j) \<longrightarrow>
      tag (arr_blocks (cache g ! unat (snd (tag_index g))) ! j) \<noteq> fst (tag_index g)"
    using find_hit_None [OF Fill(2)] len by auto
  from find_empty_Some [OF Fill(3)] Fill nohit show ?thesis
    by (intro exI [of _ i] exI [of _ "(arr_blocks (cache g ! unat (snd (tag_index g))) ! i)\<lparr>tag := fst (tag_index g), valid_bit := True, lri := lri_count g\<rparr>"])
       (simp add: t_def k_def bs_def)
next
  case (Evict m)
  have len: "length (arr_blocks (cache g ! unat (snd (tag_index g)))) = nat (lines g)"
    using shape Evict(1) by (rule shape_ok_length)
  have nohit: "\<forall>j<length (arr_blocks (cache g ! unat (snd (tag_index g)))).
      valid_bit (arr_blocks (cache g ! unat (snd (tag_index g))) ! j) \<longrightarrow>
      tag (arr_blocks (cache g ! unat (snd (tag_index g))) ! j) \<noteq> fst (tag_index g)"
    using find_hit_None [OF Evict(2)] len by auto
  have "valid_bit (arr_blocks (cache g ! unat (snd (tag_index g))) ! m)"
    using find_empty_None [OF Evict(3)] len Evict(5) by auto
  with Evict nohit show ?thesis
    by (intro exI [of _ m] exI [of _ "(arr_blocks (cache g ! unat (snd (tag_index g))) ! m)\<lparr>tag := fst (tag_index g), lri := lri_count g\<rparr>"])
       (simp add: t_def k_def bs_def)
qed


lemma all_blocks_update:
  assumes k: "k < length (cache g)" and i: "i < length (arr_blocks (cache g ! k))"
    and c: "cache g' = (cache g)[k := (cache g ! k)\<lparr>arr_blocks := (arr_blocks (cache g ! k))[i := blk]\<rparr>]"
  shows "\<exists>j<length (all_blocks g). all_blocks g' = (all_blocks g)[j := blk] \<and>
           all_blocks g ! j = arr_blocks (cache g ! k) ! i"
proof -
  let ?xss = "map arr_blocks (cache g)"
  let ?j = "length (concat (take k ?xss)) + i"
  have k': "k < length ?xss" and i': "i < length (?xss ! k)"
    using k i by simp_all
  have "map arr_blocks (cache g') = ?xss[k := (?xss ! k)[i := blk]]"
    using k by (simp add: c map_update)
  then have "all_blocks g' = (all_blocks g)[?j := blk]"
    using concat_update [OF k' i'] by (simp add: all_blocks_def)
  moreover have "?j < length (all_blocks g)" "all_blocks g ! ?j = arr_blocks (cache g ! k) ! i"
    using nth_concat_offset [OF k' i'] k by (simp_all add: all_blocks_def)
  ultimately show ?thesis by blast
qed

lemma cache_inv_update:
  assumes inv: "cache_inv g"
    and k: "k < length (cache g)" and i: "i < length (arr_blocks (cache g ! k))"
    and c: "cache g' = (cache g)[k := (cache g ! k)\<lparr>arr_blocks := (arr_blocks (cache g ! k))[i := blk]\<rparr>]"
    and l: "lines g' = lines g" and cnt: "lri_count g' = lri_count g + 1"
    and stamp: "lri blk = lri_count g"
    and tg: "valid_bit blk \<Longrightarrow> \<forall>j<length (arr_blocks (cache g ! k)). j \<noteq> i \<and> valid_bit (arr_blocks (cache g ! k) ! j)
            \<longrightarrow> tag (arr_blocks (cache g ! k) ! j) \<noteq> tag blk"
  shows "cache_inv g'"
proof -
  from inv have shape: "shape_ok g" and below: "stamps_below g" and rec: "unique_recency g"
    and tags: "unique_tags g"
    by (simp_all add: cache_inv_def)
  obtain j where j: "j < length (all_blocks g)" and ab: "all_blocks g' = (all_blocks g)[j := blk]"
    using all_blocks_update [OF k i c] by blast
  have below': "\<And>n. n < length (all_blocks g) \<Longrightarrow> lri (all_blocks g ! n) < lri_count g"
    using below by (simp add: stamps_below_def list_all_length)
  have "shape_ok g'"
    using shape k by (auto simp add: shape_ok_def list_all_length c l nth_list_update)
  moreover have "stamps_below g'"
    unfolding stamps_below_def list_all_length ab cnt
  proof (intro allI impI)
    fix n assume "n < length ((all_blocks g)[j := blk])"
    then show "lri ((all_blocks g)[j := blk] ! n) < lri_count g + 1"
      using below' [of n] stamp by (cases "n = j") simp_all
  qed
  moreover have "unique_recency g'"
    unfolding unique_recency_def ab
  proof (rule distinct_map_filter_update)
    show "distinct (map lri (filter valid_bit (all_blocks g)))"
      using rec by (simp add: unique_recency_def)
    show "\<forall>n<length (all_blocks g). n \<noteq> j \<and> valid_bit (all_blocks g ! n) \<longrightarrow> lri (all_blocks g ! n) \<noteq> lri blk"
      using below' stamp by fastforce
  qed
  moreover have "unique_tags g'"
    unfolding unique_tags_def list_all_length
  proof (intro allI impI)
    fix n assume n: "n < length (cache g')"
    have old: "distinct (map tag (filter valid_bit (arr_blocks (cache g ! n))))"
      using tags n by (simp add: unique_tags_def list_all_length c)
    show "distinct (map tag (filter valid_bit (arr_blocks (cache g' ! n))))"
    proof (cases "n = k")
      case False
      with old n show ?thesis by (simp add: c)
    next
      case True
      have "distinct (map tag (filter valid_bit ((arr_blocks (cache g ! k))[i := blk])))"
        using old tg unfolding True by (rule distinct_map_filter_update)
      with True k show ?thesis by (simp add: c)
    qed
  qed
  ultimately show ?thesis by (simp add: cache_inv_def)
qed

lemma cache_inv_access:
  assumes inv: "cache_inv g" and step: "access_step g = Inr g'"
  shows "cache_inv g'"
proof -
  define k where "k = unat (snd (tag_index g))"
  define bs where "bs = arr_blocks (cache g ! k)"
  define t where "t = fst (tag_index g)"
  from inv have shape: "shape_ok g" and tags: "unique_tags g"
    by (simp_all add: cache_inv_def)
  from access_step_effect [OF step shape, folded k_def, folded bs_def t_def]
  obtain i blk where eff: "k < length (cache g) \<and> i < length bs \<and>
       cache g' = (cache g)[k := (cache g ! k)\<lparr>arr_blocks := bs[i := blk]\<rparr>] \<and>
       lines g' = lines g \<and> tag_index g' = tag_index g \<and>
       lri_count g' = lri_count g + 1 \<and> lri_count g < INT_MAX \<and>
       lri blk = lri_count g \<and> valid_bit blk \<and> tag blk = t \<and>
       (hit g' = hit g + 1 \<and> miss g' = miss g \<and> evictions g' = evictions g \<and>
          valid_bit (bs ! i) \<and> tag (bs ! i) = t
        \<or> hit g' = hit g \<and> miss g' = miss g + 1 \<and>
          (evictions g' = evictions g \<or> evictions g' = evictions g + 1) \<and>
          (\<forall>j<length bs. valid_bit (bs ! j) \<longrightarrow> tag (bs ! j) \<noteq> t))"
    by (elim exE)
  from eff have k: "k < length (cache g)" and i: "i < length bs"
    and c: "cache g' = (cache g)[k := (cache g ! k)\<lparr>arr_blocks := bs[i := blk]\<rparr>]"
    and l: "lines g' = lines g" and cnt: "lri_count g' = lri_count g + 1"
    and stamp: "lri blk = lri_count g" and tb: "tag blk = t"
    by simp_all
  from eff have alt: "valid_bit (bs ! i) \<and> tag (bs ! i) = t \<or>
              (\<forall>j<length bs. valid_bit (bs ! j) \<longrightarrow> tag (bs ! j) \<noteq> t)"
    by blast
  have d: "\<And>x y. x < length bs \<Longrightarrow> y < length bs \<Longrightarrow> x \<noteq> y \<Longrightarrow> valid_bit (bs ! x) \<Longrightarrow>
      valid_bit (bs ! y) \<Longrightarrow> tag (bs ! x) \<noteq> tag (bs ! y)"
  proof -
    have "distinct (map tag (filter valid_bit bs))"
      using tags k by (simp add: unique_tags_def list_all_length bs_def)
    then show "\<And>x y. x < length bs \<Longrightarrow> y < length bs \<Longrightarrow> x \<noteq> y \<Longrightarrow> valid_bit (bs ! x) \<Longrightarrow>
      valid_bit (bs ! y) \<Longrightarrow> tag (bs ! x) \<noteq> tag (bs ! y)"
      unfolding distinct_map_filter_iff by blast
  qed
  have fresh: "\<forall>j<length bs. j \<noteq> i \<and> valid_bit (bs ! j) \<longrightarrow> tag (bs ! j) \<noteq> tag blk"
    using alt
  proof
    assume h: "valid_bit (bs ! i) \<and> tag (bs ! i) = t"
    show ?thesis
    proof (intro allI impI)
      fix j assume "j < length bs" "j \<noteq> i \<and> valid_bit (bs ! j)"
      with d [of j i] i h tb show "tag (bs ! j) \<noteq> tag blk" by simp
    qed
  next
    assume "\<forall>j<length bs. valid_bit (bs ! j) \<longrightarrow> tag (bs ! j) \<noteq> t"
    with tb show ?thesis by simp
  qed
  show ?thesis
  proof (rule cache_inv_update [OF inv k])
    show "i < length (arr_blocks (cache g ! k))" using i by (simp add: bs_def)
    show "cache g' = (cache g)[k := (cache g ! k)\<lparr>arr_blocks := (arr_blocks (cache g ! k))[i := blk]\<rparr>]"
      using c by (simp add: bs_def)
    show "lines g' = lines g" by (rule l)
    show "lri_count g' = lri_count g + 1" by (rule cnt)
    show "lri blk = lri_count g" by (rule stamp)
    show "\<forall>j<length (arr_blocks (cache g ! k)). j \<noteq> i \<and> valid_bit (arr_blocks (cache g ! k) ! j)
            \<longrightarrow> tag (arr_blocks (cache g ! k) ! j) \<noteq> tag blk"
      using fresh by (simp add: bs_def)
  qed
qed

lemma parse_address_Inr:
  "parse_address a s b g = Inr g' \<Longrightarrow> \<exists>ti. g' = g\<lparr>tag_index := ti\<rparr>"
  unfolding parse_address_def Let_def
  by (cases "b < 0 \<or> 64 \<le> b \<or> s < 0 \<or> 64 \<le> s \<or> s + b < 0 \<or> 64 \<le> s + b") auto

lemma cache_inv_tag_index [simp]: "cache_inv (g\<lparr>tag_index := ti\<rparr>) = cache_inv g"
  by (simp add: cache_inv_def shape_ok_def stamps_below_def unique_recency_def unique_tags_def
      all_blocks_def)

lemma cache_inv_address:
  "cache_inv g \<Longrightarrow> parse_address a s b g = Inr g' \<Longrightarrow> cache_inv g'"
  by (auto dest: parse_address_Inr)

lemma cache_init_Inr:
  assumes "cache_init s E b g0 = Inr g"
  shows "0 \<le> s" "s < 31" "0 \<le> b" "b < 31"
    "g = g0\<lparr>sets := 2 ^ nat s, lines := E, block_bits := 2 ^ nat b,
            cache := map (\<lambda>i. \<lparr>index = of_nat i, arr_blocks = replicate (nat E) empty_block\<rparr>)
                       [0..<nat (2 ^ nat s)]\<rparr>"
proof -
  from assms have s: "0 \<le> s \<and> s < 31"
    by (cases "0 \<le> s \<and> s < 31") (simp_all add: cache_init_def shl_int_1_def)
  with assms have b: "0 \<le> b \<and> b < 31"
    by (cases "0 \<le> b \<and> b < 31") (simp_all add: cache_init_def shl_int_1_def)
  from s b show "0 \<le> s" "s < 31" "0 \<le> b" "b < 31" by simp_all
  from assms s b show "g = g0\<lparr>sets := 2 ^ nat s, lines := E, block_bits := 2 ^ nat b,
            cache := map (\<lambda>i. \<lparr>index = of_nat i, arr_blocks = replicate (nat E) empty_block\<rparr>)
                       [0..<nat (2 ^ nat s)]\<rparr>"
    by (simp add: cache_init_def shl_int_1_def)
qed

lemma cache_inv_init:
  assumes "cache_init s E b initial_globals = Inr g"
  shows "cache_inv g"
proof -
  note g = cache_init_Inr(5) [OF assms]
  have c: "cache g = map (\<lambda>i. \<lparr>index = of_nat i, arr_blocks = replicate (nat E) empty_block\<rparr>)
                       [0..<nat (2 ^ nat s)]"
    and l: "lines g = E" and n: "lri_count g = 0"
    by (simp_all add: g initial_globals_def)
  have all: "set (all_blocks g) \<subseteq> {empty_block}"
    by (auto simp add: all_blocks_def c)
  then have nov: "filter valid_bit (all_blocks g) = []"
    by (auto simp add: filter_empty_conv empty_block_def)
  have "shape_ok g"
    by (simp add: shape_ok_def list_all_iff c l)
  moreover have "stamps_below g"
    using all by (auto simp add: stamps_below_def list_all_iff n empty_block_def)
  moreover have "unique_recency g"
    by (simp add: unique_recency_def nov)
  moreover have "unique_tags g"
    by (simp add: unique_tags_def list_all_iff c empty_block_def)
  ultimately show ?thesis by (simp add: cache_inv_def)
qed

lemma reachable_inv: "reachable s E b g \<Longrightarrow> cache_inv g"
  by (induction rule: reachable.induct)
     (auto intro: cache_inv_init cache_inv_address cache_inv_access)


lemma from_start_False:
  "from_start False g = (case access_step g of Inl e \<Rightarrow> Inl e | Inr g' \<Rightarrow> Inr (False, g'))"
  by (subst from_start.simps) (simp split: sum.splits)

lemma from_start_True:
  "from_start True g =
     (case access_step g of
        Inl e \<Rightarrow> Inl e
      | Inr g1 \<Rightarrow> (case access_step g1 of Inl e \<Rightarrow> Inl e | Inr g' \<Rightarrow> Inr (False, g')))"
  by (subst from_start.simps) (simp add: from_start_False split: sum.splits)

lemma from_start_Inr:
  assumes "from_start m g = Inr (m', g')"
  shows "m' = False"
    and "if m then \<exists>g1. access_step g = Inr g1 \<and> access_step g1 = Inr g'
         else access_step g = Inr g'"
  using assms
  by (cases m; auto simp add: from_start_True from_start_False split: sum.splits)+

lemma from_start_reachable:
  assumes "reachable s E b g" "from_start m g = Inr (m', g')"
  shows "reachable s E b g'"
  using from_start_Inr(2) [OF assms(2)] assms(1)
  by (cases m) (auto intro: reach_access)

lemma parse_trace_loop_reachable:
  "reachable s E b g \<Longrightarrow> parse_trace_loop tr s b m g = Inr g' \<Longrightarrow> reachable s E b g'"
proof (induction tr arbitrary: g m)
  case Nil
  then show ?case by simp
next
  case (Cons l tr)
  show ?case
  proof (cases "is_end l")
    case True
    with Cons.prems show ?thesis by simp
  next
    case False
    with Cons.prems obtain g1 m' g2 where
      a: "parse_address (address l) s b g = Inr g1"
      and f: "from_start (if type l = MODIFY then True else m) g1 = Inr (m', g2)"
      and r: "parse_trace_loop tr s b m' g2 = Inr g'"
      by (auto split: sum.splits)
    from Cons.prems(1) a have "reachable s E b g1" by (rule reach_address)
    then have "reachable s E b g2" using f by (rule from_start_reachable)
    then show ?thesis using r by (rule Cons.IH)
  qed
qed

lemma run_reachable:
  assumes "cache_init s E b initial_globals = Inr g0" "parse_trace tr s b v g0 = Inr g"
  shows "reachable s E b g"
  using assms parse_trace_loop_reachable [OF reach_init]
  by (simp add: parse_trace_def)

lemma access_step_counts:
  assumes "access_step g = Inr g'"
  shows "hit g' + miss g' = hit g + miss g + 1"
    and "hit g \<le> hit g'" "hit g' \<le> hit g + 1"
    and "miss g \<le> miss g'" "miss g' \<le> miss g + 1"
    and "evictions g \<le> evictions g'" "evictions g' \<le> evictions g + 1"
    and "lri_count g' = lri_count g + 1"
  using assms by (cases rule: access_step_cases; simp)+

lemma events_simps [simp]:
  "events [] = []"
  "events (l # tr) = (if is_end l then [] else l # events tr)"
  by (simp_all add: events_def)

lemma count_simps [simp]:
  "count_load_store [] = 0" "count_modify [] = 0"
  "is_end l \<Longrightarrow> count_load_store (l # tr) = 0"
  "is_end l \<Longrightarrow> count_modify (l # tr) = 0"
  "\<not> is_end l \<Longrightarrow> count_load_store (l # tr) = (if type l = MODIFY then 0 else 1) + count_load_store tr"
  "\<not> is_end l \<Longrightarrow> count_modify (l # tr) = (if type l = MODIFY then 1 else 0) + count_modify tr"
  by (simp_all add: count_load_store_def count_modify_def)

lemma from_start_counts:
  assumes "from_start m g = Inr (m', g')"
  shows "hit g' + miss g' = hit g + miss g + (if m then 2 else 1)"
proof (cases m)
  case True
  with from_start_Inr(2) [OF assms] obtain g1 where
    "access_step g = Inr g1" "access_step g1 = Inr g'" by auto
  from access_step_counts(1) [OF this(1)] access_step_counts(1) [OF this(2)] True
  show ?thesis by simp
next
  case False
  with from_start_Inr(2) [OF assms] have "access_step g = Inr g'" by simp
  from access_step_counts(1) [OF this] False show ?thesis by simp
qed

lemma parse_address_counts:
  "parse_address a s b g = Inr g' \<Longrightarrow> hit g' = hit g \<and> miss g' = miss g \<and>
     evictions g' = evictions g \<and> lri_count g' = lri_count g \<and> cache g' = cache g \<and> lines g' = lines g"
  by (auto dest: parse_address_Inr)

lemma parse_trace_loop_counts:
  "parse_trace_loop tr s b False g = Inr g' \<Longrightarrow>
     hit g' + miss g' = hit g + miss g + int (count_load_store tr) + 2 * int (count_modify tr)"
proof (induction tr arbitrary: g)
  case Nil
  then show ?case by simp
next
  case (Cons l tr)
  show ?case
  proof (cases "is_end l")
    case True
    with Cons.prems show ?thesis by simp
  next
    case False
    with Cons.prems obtain g1 m' g2 where
      a: "parse_address (address l) s b g = Inr g1"
      and f: "from_start (if type l = MODIFY then True else False) g1 = Inr (m', g2)"
      and r: "parse_trace_loop tr s b m' g2 = Inr g'"
      by (auto split: sum.splits)
    from from_start_Inr(1) [OF f] r have r': "parse_trace_loop tr s b False g2 = Inr g'"
      by simp
    from Cons.IH [OF r'] from_start_counts [OF f] parse_address_counts [OF a] False
    show ?thesis by simp
  qed
qed

lemma not_shift_take_bit: "x AND NOT (push_bit n (NOT 0)) = take_bit n (x :: 64 word)"
  by (rule bit_word_eqI) (auto simp add: bit_simps)

lemma unat_set_index_less:
  fixes x :: "64 word"
  shows "unat (ucast (x AND NOT (push_bit n (NOT 0))) :: 32 word) < 2 ^ n"
proof -
  have "unat (ucast (take_bit n x) :: 32 word) = take_bit 32 (unat (take_bit n x))"
    by (simp add: unsigned_ucast_eq)
  also have "\<dots> \<le> unat (take_bit n x)"
    by (rule take_bit_nat_less_eq_self)
  also have "\<dots> = take_bit n (unat x)"
    by (simp add: unsigned_take_bit_eq)
  also have "\<dots> < 2 ^ n"
    by (rule take_bit_nat_less_exp)
  finally show ?thesis unfolding not_shift_take_bit .
qed

lemma shape_ok_access:
  assumes "shape_ok g" "access_step g = Inr g'"
  shows "shape_ok g'" "length (cache g') = length (cache g)" "tag_index g' = tag_index g"
    "lines g' = lines g"
proof -
  from access_step_effect [OF assms(2,1)]
  obtain i blk where k: "unat (snd (tag_index g)) < length (cache g)"
    and c: "cache g' = (cache g)[unat (snd (tag_index g)) := (cache g ! unat (snd (tag_index g)))
        \<lparr>arr_blocks := (arr_blocks (cache g ! unat (snd (tag_index g))))[i := blk]\<rparr>]"
    and l: "lines g' = lines g" and ti: "tag_index g' = tag_index g"
    by (elim exE conjE)
  show "shape_ok g'"
    using assms(1) k by (auto simp add: shape_ok_def list_all_length c l nth_list_update)
  show "length (cache g') = length (cache g)" by (simp add: c)
  show "tag_index g' = tag_index g" by (rule ti)
  show "lines g' = lines g" by (rule l)
qed

lemma room_for_access:
  assumes "access_step g = Inr g'" "room_for g (Suc n)"
  shows "room_for g' n"
  using access_step_counts [OF assms(1)] assms(2)
  by (simp add: room_for_def)

lemma access_step_hit:
  assumes "unat (snd (tag_index g)) < length (cache g)"
    and "find_hit (arr_blocks (cache g ! unat (snd (tag_index g)))) (fst (tag_index g)) (lines g) 0
           = Inr (Some i)"
    and "hit g < INT_MAX" "lri_count g < INT_MAX"
  shows "access_step g =
     Inr (set_blocks (unat (snd (tag_index g)))
            ((arr_blocks (cache g ! unat (snd (tag_index g))))
               [i := (arr_blocks (cache g ! unat (snd (tag_index g))) ! i)\<lparr>lri := lri_count g\<rparr>])
            (g\<lparr>hit := hit g + 1, lri_count := lri_count g + 1\<rparr>))"
  using assms by (simp add: access_step_def Let_def incr_def)

lemma access_step_fill:
  assumes "unat (snd (tag_index g)) < length (cache g)"
    and "find_hit (arr_blocks (cache g ! unat (snd (tag_index g)))) (fst (tag_index g)) (lines g) 0
           = Inr None"
    and "find_empty (arr_blocks (cache g ! unat (snd (tag_index g)))) (lines g) 0 = Inr (Some i)"
    and "miss g < INT_MAX" "lri_count g < INT_MAX"
  shows "access_step g =
     Inr (set_blocks (unat (snd (tag_index g)))
            ((arr_blocks (cache g ! unat (snd (tag_index g))))
               [i := (arr_blocks (cache g ! unat (snd (tag_index g))) ! i)
                  \<lparr>tag := fst (tag_index g), valid_bit := True, lri := lri_count g\<rparr>])
            (g\<lparr>miss := miss g + 1, lri_count := lri_count g + 1\<rparr>))"
  using assms by (simp add: access_step_def Let_def incr_def)

lemma access_step_evict:
  assumes "unat (snd (tag_index g)) < length (cache g)"
    and "find_hit (arr_blocks (cache g ! unat (snd (tag_index g)))) (fst (tag_index g)) (lines g) 0
           = Inr None"
    and "find_empty (arr_blocks (cache g ! unat (snd (tag_index g)))) (lines g) 0 = Inr None"
    and "(if 1 < lines g then find_min (arr_blocks (cache g ! unat (snd (tag_index g)))) (lines g) 1 0
          else Inr 0) = Inr m"
    and "m < length (arr_blocks (cache g ! unat (snd (tag_index g))))"
    and "miss g < INT_MAX" "evictions g < INT_MAX" "lri_count g < INT_MAX"
  shows "access_step g =
     Inr (set_blocks (unat (snd (tag_index g)))
            ((arr_blocks (cache g ! unat (snd (tag_index g))))
               [m := (arr_blocks (cache g ! unat (snd (tag_index g))) ! m)
                  \<lparr>tag := fst (tag_index g), lri := lri_count g\<rparr>])
            (g\<lparr>miss := miss g + 1, evictions := evictions g + 1,
               lri_count := lri_count g + 1\<rparr>))"
  using assms by (cases "1 < lines g") (simp_all add: access_step_def Let_def incr_def)

lemma access_step_total:
  assumes shape: "shape_ok g" and pos: "0 < lines g"
    and k: "unat (snd (tag_index g)) < length (cache g)"
    and room: "room_for g (Suc n)"
  shows "\<exists>g'. access_step g = Inr g'"
proof -
  let ?bs = "arr_blocks (cache g ! unat (snd (tag_index g)))"
  let ?t = "fst (tag_index g)"
  have len: "length ?bs = nat (lines g)"
    using shape k by (rule shape_ok_length)
  then have le: "lines g \<le> int (length ?bs)" and pos': "0 < length ?bs"
    using pos by simp_all
  obtain r where r: "find_hit ?bs ?t (lines g) 0 = Inr r"
    using find_hit_total [OF le] by blast
  obtain e where e: "find_empty ?bs (lines g) 0 = Inr e"
    using find_empty_total [OF le] by blast
  obtain m where m: "(if 1 < lines g then find_min ?bs (lines g) 1 0 else Inr 0) = Inr m"
    using find_min_total [OF le pos', of 1] by (cases "1 < lines g") auto
  have mlt: "m < length ?bs"
  proof (cases "1 < lines g")
    case True
    with m have "find_min ?bs (lines g) 1 0 = Inr m" by simp
    from find_min_result [OF this] True pos' show ?thesis by auto
  next
    case False
    with m pos' show ?thesis by simp
  qed
  from room have c: "hit g < INT_MAX" "miss g < INT_MAX" "evictions g < INT_MAX"
    "lri_count g < INT_MAX"
    by (simp_all add: room_for_def)
  show ?thesis
  proof (cases r)
    case (Some i)
    with r have "find_hit ?bs ?t (lines g) 0 = Inr (Some i)" by simp
    from access_step_hit [OF k this c(1,4)] show ?thesis by blast
  next
    case None
    with r have r': "find_hit ?bs ?t (lines g) 0 = Inr None" by simp
    show ?thesis
    proof (cases e)
      case (Some i)
      with e have "find_empty ?bs (lines g) 0 = Inr (Some i)" by simp
      from access_step_fill [OF k r' this c(2,4)] show ?thesis by blast
    next
      case None
      with e have "find_empty ?bs (lines g) 0 = Inr None" by simp
      from access_step_evict [OF k r' this m mlt c(2,3,4)] show ?thesis by blast
    qed
  qed
qed

lemma reachable_shape:
  "reachable s E b g \<Longrightarrow>
     lines g = E \<and> length (cache g) = 2 ^ nat s \<and> 0 \<le> s \<and> s < 31 \<and> 0 \<le> b \<and> b < 31"
proof (induction rule: reachable.induct)
  case (reach_init g)
  from cache_init_Inr [OF this] show ?case
    by (simp add: initial_globals_def)
next
  case (reach_address g a g')
  with parse_address_counts [OF reach_address(2)] show ?case by simp
next
  case (reach_access g g')
  from shape_ok_access(2,4) [OF _ reach_access(2)] reachable_inv [OF reach_access(1)] reach_access(3)
  show ?case by (simp add: cache_inv_def)
qed

lemma parse_address_total:
  assumes "0 \<le> s" "s < 31" "0 \<le> b" "b < 31"
  shows "\<exists>g'. parse_address a s b g = Inr g' \<and> unat (snd (tag_index g')) < 2 ^ nat s"
  using assms unat_set_index_less [of "drop_bit (nat b) a" "nat s"]
  by (simp add: parse_address_def Let_def)

lemma from_start_total:
  assumes r: "reachable s E b g" and E: "1 \<le> E"
    and k: "unat (snd (tag_index g)) < 2 ^ nat s"
    and room: "room_for g ((if m then 2 else 1) + n)"
  shows "\<exists>g'. from_start m g = Inr (False, g') \<and> reachable s E b g' \<and> room_for g' n"
proof -
  note sh = reachable_shape [OF r]
  have shape: "shape_ok g" using reachable_inv [OF r] by (simp add: cache_inv_def)
  have room1: "room_for g (Suc (if m then Suc n else n))"
    using room by (simp split: if_splits)
  obtain g1 where g1: "access_step g = Inr g1"
    using access_step_total [OF shape _ _ room1] sh E k by auto
  have r1: "reachable s E b g1" using r g1 by (rule reach_access)
  have room2: "room_for g1 (if m then Suc n else n)"
    using g1 room1 by (rule room_for_access)
  show ?thesis
  proof (cases m)
    case False
    with g1 r1 room2 show ?thesis by (simp add: from_start_False)
  next
    case True
    note sh1 = reachable_shape [OF r1]
    have shape1: "shape_ok g1" using reachable_inv [OF r1] by (simp add: cache_inv_def)
    have k1: "unat (snd (tag_index g1)) < length (cache g1)"
      using shape_ok_access(3) [OF shape g1] k sh1 by simp
    from True room2 have room2': "room_for g1 (Suc n)" by simp
    obtain g2 where g2: "access_step g1 = Inr g2"
      using access_step_total [OF shape1 _ k1 room2'] sh1 E by auto
    have "reachable s E b g2" using r1 g2 by (rule reach_access)
    moreover have "room_for g2 n" using g2 room2' by (rule room_for_access)
    ultimately show ?thesis using True g1 g2 by (simp add: from_start_True)
  qed
qed

lemma parse_trace_loop_total:
  assumes "reachable s E b g" "1 \<le> E" "room_for g (count_accesses tr)" "\<exists>l\<in>set tr. is_end l"
  shows "\<exists>g'. parse_trace_loop tr s b False g = Inr g'"
  using assms
proof (induction tr arbitrary: g)
  case Nil
  then show ?case by simp
next
  case (Cons l tr)
  show ?case
  proof (cases "is_end l")
    case True
    then show ?thesis by simp
  next
    case False
    note sh = reachable_shape [OF Cons.prems(1)]
    from parse_address_total [of s b "address l" g] sh
    obtain g1 where g1: "parse_address (address l) s b g = Inr g1"
      and k1: "unat (snd (tag_index g1)) < 2 ^ nat s" by auto
    have r1: "reachable s E b g1" using Cons.prems(1) g1 by (rule reach_address)
    have "room_for g1 (count_accesses (l # tr))"
      using Cons.prems(3) parse_address_counts [OF g1] by (simp add: room_for_def)
    moreover have "count_accesses (l # tr) = (if type l = MODIFY then 2 else 1) + count_accesses tr"
      using False by (simp add: count_accesses_def)
    ultimately have room1: "room_for g1 ((if type l = MODIFY then 2 else 1) + count_accesses tr)"
      by simp
    from from_start_total [OF r1 Cons.prems(2) k1 room1]
    obtain g2 where g2: "from_start (type l = MODIFY) g1 = Inr (False, g2)"
      and r2: "reachable s E b g2" and room2: "room_for g2 (count_accesses tr)" by auto
    from Cons.prems(4) False have "\<exists>l\<in>set tr. is_end l" by auto
    from Cons.IH [OF r2 Cons.prems(2) room2 this]
    obtain g' where "parse_trace_loop tr s b False g2 = Inr g'" by blast
    with False g1 g2 show ?thesis
      by (cases "type l = MODIFY") simp_all
  qed
qed


lemma counts_trace_of:
  "count_load_store (trace_of evs) = length (filter (\<lambda>ev. fst ev \<noteq> MODIFY) evs)"
  "count_modify (trace_of evs) = length (filter (\<lambda>ev. fst ev = MODIFY) evs)"
  by (induction evs) (auto simp add: trace_of_def event_def end_line_def)

lemma trace_of_has_end: "\<exists>l\<in>set (trace_of evs). is_end l"
  by (simp add: trace_of_def end_line_def)

lemma csim_main_Inr:
  assumes "csim_main argc s E b v tr = Inr (h, m, e)"
  shows "\<exists>g0 g. cache_init s E b initial_globals = Inr g0 \<and> parse_trace tr s b v g0 = Inr g \<and>
           h = hit g \<and> m = miss g \<and> e = evictions g \<and> argc \<noteq> 1"
  using assms by (auto simp add: csim_main_def split: if_splits sum.splits)

lemma cache_init_counters:
  assumes "cache_init s E b initial_globals = Inr g0"
  shows "hit g0 = 0" "miss g0 = 0" "evictions g0 = 0" "lri_count g0 = 0"
  by (subst cache_init_Inr(5) [OF assms], simp add: initial_globals_def)+

lemma second_access_hits:
  assumes shape: "shape_ok g1" and s1: "access_step g1 = Inr g2" and s2: "access_step g2 = Inr g3"
  shows "hit g3 = hit g2 + 1 \<and> miss g3 = miss g2 \<and> evictions g3 = evictions g2"
proof -
  define k where "k = unat (snd (tag_index g1))"
  define bs where "bs = arr_blocks (cache g1 ! k)"
  define t where "t = fst (tag_index g1)"
  from access_step_effect [OF s1 shape, folded k_def, folded bs_def t_def]
  obtain i blk where k: "k < length (cache g1)" and i: "i < length bs"
    and c: "cache g2 = (cache g1)[k := (cache g1 ! k)\<lparr>arr_blocks := bs[i := blk]\<rparr>]"
    and l: "lines g2 = lines g1" and ti: "tag_index g2 = tag_index g1"
    and v: "valid_bit blk" and tb: "tag blk = t"
    by (elim exE conjE)
  have len: "length bs = nat (lines g1)"
    using shape k unfolding bs_def by (rule shape_ok_length)
  have bs2: "arr_blocks (cache g2 ! unat (snd (tag_index g2))) = bs[i := blk]"
    using k by (simp add: c ti k_def [symmetric])
  have il: "int i < lines g2" using i len l by simp
  have there: "tag (bs[i := blk] ! i) = fst (tag_index g2) \<and> valid_bit (bs[i := blk] ! i)"
    using i v tb by (simp add: ti t_def)
  from s2 show ?thesis
  proof (cases rule: access_step_cases)
    case (Hit j)
    then show ?thesis by simp
  next
    case (Fill j)
    from find_hit_None [OF Fill(2)] il there show ?thesis
      by (auto simp add: bs2)
  next
    case (Evict m)
    from find_hit_None [OF Evict(2)] il there show ?thesis
      by (auto simp add: bs2)
  qed
qed

lemma parse_trace_modify:
  "parse_trace (event MODIFY a # rest) s b v g =
     (case parse_address a s b g of
        Inl e \<Rightarrow> Inl e
      | Inr g1 \<Rightarrow>
         (case access_step g1 of
            Inl e \<Rightarrow> Inl e
          | Inr g2 \<Rightarrow>
             (case access_step g2 of
                Inl e \<Rightarrow> Inl e
              | Inr g3 \<Rightarrow> parse_trace rest s b v g3)))"
  by (simp add: parse_trace_def event_def from_start_True split: sum.splits)

lemma parse_trace_load_store:
  "k \<noteq> MODIFY \<Longrightarrow> parse_trace (event k a # rest) s b v g =
     (case parse_address a s b g of
        Inl e \<Rightarrow> Inl e
      | Inr g1 \<Rightarrow>
         (case access_step g1 of
            Inl e \<Rightarrow> Inl e
          | Inr g2 \<Rightarrow> parse_trace rest s b v g2))"
  by (simp add: parse_trace_def event_def from_start_False split: sum.splits)

lemma cache_init_blocks:
  assumes "cache_init s E b initial_globals = Inr g" "k < length (cache g)"
  shows "arr_blocks (cache g ! k) = replicate (nat E) empty_block"
proof -
  have c: "cache g = map (\<lambda>i. \<lparr>index = of_nat i, arr_blocks = replicate (nat E) empty_block\<rparr>)
                       [0..<nat (2 ^ nat s)]"
    by (subst cache_init_Inr(5) [OF assms(1)]) simp
  from assms(2) show ?thesis
    unfolding c by simp
qed

lemma fresh_access_fills:
  assumes g0: "cache_init s E b initial_globals = Inr g0" and E: "1 \<le> E"
    and a: "parse_address a s b g0 = Inr g1"
  shows "\<exists>g2. access_step g1 = Inr g2 \<and> hit g2 = 0 \<and> miss g2 = 1 \<and> evictions g2 = 0"
proof -
  let ?k = "unat (snd (tag_index g1))"
  let ?bs = "arr_blocks (cache g1 ! ?k)"
  have r0: "reachable s E b g0" using g0 by (rule reach_init)
  then have r1: "reachable s E b g1" using a by (rule reach_address)
  note sh = reachable_shape [OF r1]
  have shape: "shape_ok g1" using reachable_inv [OF r1] by (simp add: cache_inv_def)
  note same = parse_address_counts [OF a]
  note zero = cache_init_counters [OF g0]
  have k: "?k < length (cache g1)"
    using parse_address_total [of s b a g0] sh a by auto
  have room: "room_for g1 (Suc 0)"
    using same zero by (simp add: room_for_def INT_MAX_def)
  have pos: "0 < lines g1" using sh E by simp
  obtain g2 where g2: "access_step g1 = Inr g2"
    using access_step_total [OF shape pos k room] by blast
  have bs: "?bs = replicate (nat E) empty_block"
    using cache_init_blocks [OF g0, of ?k] k same by simp
  have inv: "\<And>i. i < length ?bs \<Longrightarrow> \<not> valid_bit (?bs ! i)"
    unfolding bs by (simp add: empty_block_def)
  have len: "0 < length ?bs" unfolding bs using E by simp
  from g2 have "hit g2 = 0 \<and> miss g2 = 1 \<and> evictions g2 = 0"
  proof (cases rule: access_step_cases)
    case (Hit i)
    from find_hit_Some [OF Hit(2)] inv [of i] show ?thesis by simp
  next
    case (Fill i)
    with same zero show ?thesis by simp
  next
    case (Evict m)
    from find_empty_None [OF Evict(3)] pos inv [of 0] len show ?thesis by auto
  qed
  with g2 show ?thesis by blast
qed

lemma modify_on_fresh_cache:
  assumes "argc \<noteq> 1" "0 \<le> s" "s < 31" "0 \<le> b" "b < 31" "1 \<le> E"
  shows "csim_main argc s E b v (trace_of [(MODIFY, a)]) = Inr (1, 1, 0)"
proof -
  obtain g0 where g0: "cache_init s E b initial_globals = Inr g0"
    using assms by (auto simp add: cache_init_def shl_int_1_def)
  obtain g1 where g1: "parse_address a s b g0 = Inr g1"
    using parse_address_total [of s b a g0] assms by auto
  obtain g2 where g2: "access_step g1 = Inr g2"
    and c2: "hit g2 = 0" "miss g2 = 1" "evictions g2 = 0"
    using fresh_access_fills [OF g0 assms(6) g1] by blast
  have r1: "reachable s E b g1"
    using reach_address [OF reach_init [OF g0] g1] .
  then have r2: "reachable s E b g2" using g2 by (rule reach_access)
  have shape1: "shape_ok g1" using reachable_inv [OF r1] by (simp add: cache_inv_def)
  have shape2: "shape_ok g2" using reachable_inv [OF r2] by (simp add: cache_inv_def)
  note sh2 = reachable_shape [OF r2]
  have k2: "unat (snd (tag_index g2)) < length (cache g2)"
    using parse_address_total [of s b a g0] g1 assms shape_ok_access(3) [OF shape1 g2] sh2
    by auto
  have room: "room_for g2 (Suc 0)"
    using c2 access_step_counts(8) [OF g2] parse_address_counts [OF g1]
      cache_init_counters [OF g0]
    by (simp add: room_for_def INT_MAX_def)
  have pos: "0 < lines g2" using sh2 assms(6) by simp
  obtain g3 where g3: "access_step g2 = Inr g3"
    using access_step_total [OF shape2 pos k2 room] by blast
  from second_access_hits [OF shape1 g2 g3] c2
  have c3: "hit g3 = 1" "miss g3 = 1" "evictions g3 = 0" by simp_all
  have "parse_trace (trace_of [(MODIFY, a)]) s b v g0 = Inr g3"
    using g1 g2 g3
    by (simp add: trace_of_def parse_trace_modify) (simp add: parse_trace_def end_line_def)
  with g0 c3 assms(1) show ?thesis
    by (simp add: csim_main_def)
qed

lemma parse_address_eq:
  assumes "0 \<le> s" "0 \<le> b" "s + b < 64"
  shows "parse_address a s b g =
     Inr (g\<lparr>tag_index := (ucast (drop_bit (nat (s + b)) a),
                              ucast (take_bit (nat s) (drop_bit (nat b) a)))\<rparr>)"
  using assms by (simp add: parse_address_def Let_def not_shift_take_bit [symmetric])

lemma ucast_low_bits:
  fixes x y :: "64 word"
  assumes "take_bit 32 x = take_bit 32 y"
  shows "(ucast x :: 32 word) = ucast y"
proof -
  have "(ucast x :: 32 word) = ucast (take_bit 32 x)" for x :: "64 word"
    by (rule bit_word_eqI) (simp add: bit_simps)
  with assms show ?thesis by metis
qed

lemma parse_address_alias:
  assumes "0 \<le> s" "0 \<le> b" "s + b < 64"
    and "take_bit (nat s) (drop_bit (nat b) a1) = take_bit (nat s) (drop_bit (nat b) a2)"
    and "take_bit 32 (drop_bit (nat (s + b)) a1) = take_bit 32 (drop_bit (nat (s + b)) a2)"
  shows "parse_address a1 s b g = parse_address a2 s b g"
  using assms(4) ucast_low_bits [OF assms(5)]
  by (simp add: parse_address_eq [OF assms(1-3)])

lemma parse_trace_event_cong:
  assumes "\<And>g. parse_address a1 s b g = parse_address a2 s b g"
  shows "parse_trace (event k a1 # rest) s b v g = parse_trace (event k a2 # rest) s b v g"
  using assms by (simp add: parse_trace_def event_def)

lemma less_two_cases: "i < length [x, y] \<Longrightarrow> i = 0 \<or> i = Suc 0"
  by auto

lemma ex_less_two: "(\<exists>i<length [x, y]. P i) \<longleftrightarrow> P 0 \<or> P (Suc 0)"
  by (auto simp add: less_Suc_eq)

section \<open>Address decomposition\<close>

lemma mask_as_not_shift: "NOT (push_bit n (NOT 0)) = (push_bit n 1 - 1 :: 64 word)"
  by (rule bit_word_eqI) (auto simp add: bit_simps simp flip: mask_eq_exp_minus_1)

lemma recover_address:
  fixes a :: "64 word"
  assumes "s \<le> 32" "drop_bit (s + b + 32) a = 0"
  shows "a = push_bit (s + b) (ucast (ucast (drop_bit (s + b) a) :: 32 word))
             OR push_bit b (ucast (ucast (drop_bit b a AND (push_bit s 1 - 1)) :: 32 word))
             OR (a AND mask b)"
proof (rule bit_word_eqI)
  fix n assume n: "n < LENGTH(64)"
  have hi: "\<not> bit a (s + b + 32 + m)" for m
  proof -
    have "bit (drop_bit (s + b + 32) a) m = bit a (s + b + 32 + m)"
      by (simp add: bit_simps)
    with assms(2) show ?thesis by simp
  qed
  have hi': "s + b + 32 \<le> k \<Longrightarrow> \<not> bit a k" for k
    using hi [of "k - (s + b + 32)"] by simp
  have lt: "bit a n \<Longrightarrow> n < s + b + 32"
    using hi' [of n] by (cases "n < s + b + 32") auto
  consider "n < b" | "b \<le> n" "n < s + b" | "s + b \<le> n"
    by linarith
  then show "bit a n = bit (push_bit (s + b) (ucast (ucast (drop_bit (s + b) a) :: 32 word))
             OR push_bit b (ucast (ucast (drop_bit b a AND (push_bit s 1 - 1)) :: 32 word))
             OR (a AND mask b)) n"
  proof cases
    case 1
    with n show ?thesis
      by (auto simp add: bit_simps simp flip: mask_eq_exp_minus_1)
  next
    case 2
    with n assms(1) show ?thesis
      by (auto simp add: bit_simps simp flip: mask_eq_exp_minus_1)
  next
    case 3
    with n lt show ?thesis
      by (auto simp add: bit_simps simp flip: mask_eq_exp_minus_1)
  qed
qed

text \<open>
  C2, as stated, fails: the claim gives the tag as the whole of \<open>a >> (s + b)\<close>, but
  \<open>parse_address\<close> stores it in an \<open>unsigned int\<close>.  For \<open>a = 2^63\<close>, \<open>s = b = 0\<close>
  the stored tag is 0, not \<open>a >> 0\<close>.
\<close>

theorem parse_address_counterexample:
  "\<not> (\<exists>g'. parse_address (2 ^ 63) 0 0 initial_globals = Inr g' \<and>
          ucast (fst (tag_index g')) = drop_bit 0 (2 ^ 63 :: 64 word))"
  by (simp add: parse_address_def)

text \<open>
  C2, amended: for all \<open>s, b \<ge> 0\<close> with \<open>s + b < 64\<close>, \<open>parse_address\<close> stores as set
  index the low 32 bits of \<open>(a >> b) & ((1 << s) - 1)\<close> and as tag the low 32 bits of
  \<open>a >> (s + b)\<close>; \<open>s = 0\<close> gives set index 0; and when \<open>s \<le> 32\<close> and the address has
  no bit at position \<open>s + b + 32\<close> or above, the address is recovered bit for bit as
  \<open>(tag << (s + b)) | (setIndex << b) | (low b bits of a)\<close>.
\<close>

theorem parse_address_decomposition:
  assumes "0 \<le> s" "0 \<le> b" "s + b < 64"
  shows "\<exists>tg si. parse_address a s b g = Inr (g\<lparr>tag_index := (tg, si)\<rparr>) \<and>
     si = ucast (drop_bit (nat b) a AND (push_bit (nat s) 1 - 1)) \<and>
     tg = ucast (drop_bit (nat (s + b)) a) \<and>
     (s = 0 \<longrightarrow> si = 0) \<and>
     (s \<le> 32 \<and> drop_bit (nat (s + b) + 32) a = 0 \<longrightarrow>
        a = push_bit (nat (s + b)) (ucast tg) OR push_bit (nat b) (ucast si) OR (a AND mask (nat b)))"
proof -
  have nat_sum: "nat (s + b) = nat s + nat b"
    using assms by (simp add: nat_add_distrib)
  have rec: "s \<le> 32 \<Longrightarrow> drop_bit (nat (s + b) + 32) a = 0 \<Longrightarrow>
     a = push_bit (nat (s + b)) (ucast (ucast (drop_bit (nat (s + b)) a) :: 32 word))
             OR push_bit (nat b) (ucast (ucast (drop_bit (nat b) a AND (push_bit (nat s) 1 - 1)) :: 32 word))
             OR (a AND mask (nat b))"
    using recover_address [of "nat s" "nat b" a] by (simp add: nat_sum)
  show ?thesis
    using assms rec by (simp add: parse_address_def Let_def mask_as_not_shift mask_eq_exp_minus_1)
qed

text \<open>
  C2, witness: the address \<open>0x7ff0a5\<close> with \<open>s = b = 4\<close> has tag \<open>0x7ff0\<close> and set
  index \<open>0xa\<close>, and is recovered from them and its low 4 bits.
\<close>

theorem parse_address_decomposition_witness:
  "(0::int) \<le> 4 \<and> (0::int) \<le> 4 \<and> (4::int) + 4 < 64 \<and>
   parse_address 0x7ff0a5 4 4 initial_globals = Inr (initial_globals\<lparr>tag_index := (0x7ff0, 0xa)\<rparr>) \<and>
   (0x7ff0a5 :: 64 word) = push_bit 8 0x7ff0 OR push_bit 4 0xa OR 5"
  using parse_address_decomposition [of 4 4 "0x7ff0a5" initial_globals]
  by (simp add: mask_eq_exp_minus_1)







section \<open>Configuration\<close>

text \<open>
  C8, as stated, fails: neither \<open>main\<close> nor \<open>cache_init\<close> looks at the values of
  \<open>s\<close>, \<open>E\<close> and \<open>b\<close>.  With \<open>E = 0\<close> (and \<open>s = b = 0\<close>) \<open>cache_init\<close> allocates a
  cache of one set without lines, and \<open>main\<close> runs the simulation of an empty trace to
  its summary.
\<close>

theorem cache_init_unchecked_counterexample:
  "cache_init 0 0 0 initial_globals =
     Inr (initial_globals\<lparr>sets := 1, lines := 0, block_bits := 1,
                           cache := [\<lparr>index = 0, arr_blocks = []\<rparr>]\<rparr>) \<and>
   csim_main 9 0 0 0 False (trace_of []) = Inr (0, 0, 0)"
  by (simp add: csim_main_def cache_init_def shl_int_1_def initial_globals_def trace_of_def
      end_line_def parse_trace_def)

text \<open>
  C8, amended: the code does not validate the configuration.  For every \<open>E\<close>, also
  \<open>E < 1\<close>, and all \<open>s\<close> and \<open>b\<close> from 0 to 30, \<open>cache_init\<close> allocates the cache,
  \<open>2^s\<close> sets of \<open>max E 0\<close> invalid lines each, and \<open>main\<close> (given any argument)
  runs the simulation; on a trace without events it reports 0 hits, 0 misses and
  0 evictions.
\<close>

theorem cache_init_unchecked:
  assumes "0 \<le> s" "s < 31" "0 \<le> b" "b < 31"
  shows "\<exists>g'. cache_init s E b g = Inr g' \<and> lines g' = E \<and> sets g' = 2 ^ nat s \<and>
           length (cache g') = 2 ^ nat s \<and>
           list_all (\<lambda>cs. arr_blocks cs = replicate (nat E) empty_block) (cache g') \<and>
           (argc \<noteq> 1 \<longrightarrow> csim_main argc s E b v (trace_of []) = Inr (0, 0, 0))"
  using assms
  by (simp add: csim_main_def cache_init_def shl_int_1_def initial_globals_def trace_of_def
      end_line_def parse_trace_def list_all_iff)

text \<open>C8, witness: \<open>s = 1\<close>, \<open>E = 0\<close>, \<open>b = 0\<close> gives two sets without lines.\<close>

theorem cache_init_unchecked_witness:
  "(0::int) \<le> 1 \<and> (1::int) < 31 \<and> (0::int) \<le> 0 \<and> (0::int) < 31 \<and>
   (\<exists>g'. cache_init 1 0 0 initial_globals = Inr g' \<and> lines g' = 0 \<and> sets g' = 2 \<and>
           length (cache g') = 2 \<and>
           list_all (\<lambda>cs. arr_blocks cs = []) (cache g') \<and>
           csim_main 9 1 0 0 False (trace_of []) = Inr (0, 0, 0))"
  using cache_init_unchecked [of 1 0 0 initial_globals 9 False]
  by simp

section \<open>Scenarios\<close>

text \<open>
  C9, as stated, fails: the third access misses in a full set, so it evicts as the
  second one did.  The run does not end with the counters 0, 3, 1.
\<close>

theorem scenario_direct_mapped_counterexample:
  "csim_main 9 1 1 0 False (trace_of [(LOAD, 0), (LOAD, 2), (LOAD, 0)]) \<noteq> Inr (0, 3, 1)"
  by (simp add: run_defs)

text \<open>
  C9, amended: with \<open>s = 1\<close>, \<open>E = 1\<close>, \<open>b = 0\<close> and the three loads at the addresses
  0, 2, 0 on a fresh cache, the final counters are hits = 0, misses = 3, evictions = 2.
\<close>

theorem scenario_direct_mapped:
  "csim_main 9 1 1 0 False (trace_of [(LOAD, 0), (LOAD, 2), (LOAD, 0)]) = Inr (0, 3, 2)"
  by (simp add: run_defs)

section \<open>Invariants of the cache\<close>

lemma two_way_fresh_init: "cache_init 0 2 0 initial_globals = Inr two_way_fresh"
  by (simp add: two_way_fresh_def cache_init_def shl_int_1_def initial_globals_def empty_block_def
      eval_nat_numeral)

lemma two_way_full_run:
  "parse_trace (trace_of [(LOAD, 1), (LOAD, 2)]) 0 0 False two_way_fresh = Inr two_way_full"
  by (simp add: two_way_fresh_def two_way_full_def run_defs)

lemma two_way_hit_step: "access_step two_way_full = Inr two_way_hit"
  by (simp add: two_way_full_def two_way_hit_def run_defs)

text \<open>
  C6: at every point of the processing of any event sequence, no two valid lines of one
  set hold the same tag.  The points are the reachable states; in particular the state
  \<open>parse_trace\<close> ends in, started on the cache that \<open>cache_init\<close> built, is one.
\<close>

theorem unique_tags_invariant:
  "(reachable s E b g \<longrightarrow> unique_tags g) \<and>
   (cache_init s E b initial_globals = Inr g0 \<and> parse_trace tr s b v g0 = Inr g' \<longrightarrow>
      unique_tags g')"
  using reachable_inv [of s E b g] reachable_inv [OF run_reachable, of s E b g0 tr v g']
  by (auto simp add: cache_inv_def)

text \<open>
  C6, witness: the two-line set after loads from the addresses 1 and 2 holds the tags
  1 and 2 in its two valid lines.
\<close>

theorem unique_tags_invariant_witness:
  "cache_init 0 2 0 initial_globals = Inr two_way_fresh \<and>
   parse_trace (trace_of [(LOAD, 1), (LOAD, 2)]) 0 0 False two_way_fresh = Inr two_way_full \<and>
   unique_tags two_way_full \<and>
   map tag (filter valid_bit (arr_blocks (cache two_way_full ! 0))) = [1, 2]"
proof -
  have "unique_tags two_way_full"
    using unique_tags_invariant [of 0 2 0 two_way_full two_way_fresh
        "trace_of [(LOAD, 1), (LOAD, 2)]" False two_way_full]
      two_way_fresh_init two_way_full_run
    by simp
  moreover have "map tag (filter valid_bit (arr_blocks (cache two_way_full ! 0))) = [1, 2]"
    by (simp add: two_way_full_def)
  ultimately show ?thesis
    using two_way_fresh_init two_way_full_run by simp
qed

lemma access_step_touch:
  assumes inv: "cache_inv g" and step: "access_step g = Inr g'"
  shows "\<exists>k i. k < length (cache g) \<and> i < length (arr_blocks (cache g ! k)) \<and>
           lri (line_at g k i) < lri (line_at g' k i) \<and>
           length (cache g') = length (cache g) \<and>
           (\<forall>k'<length (cache g). length (arr_blocks (cache g' ! k')) = length (arr_blocks (cache g ! k')) \<and>
              (\<forall>i'<length (arr_blocks (cache g ! k')). (k', i') \<noteq> (k, i) \<longrightarrow>
                 line_at g' k' i' = line_at g k' i'))"
proof -
  define k where "k = unat (snd (tag_index g))"
  define bs where "bs = arr_blocks (cache g ! k)"
  from inv have shape: "shape_ok g" and below: "stamps_below g"
    by (simp_all add: cache_inv_def)
  from access_step_effect [OF step shape, folded k_def, folded bs_def]
  obtain i blk where k: "k < length (cache g)" and i: "i < length bs"
    and c: "cache g' = (cache g)[k := (cache g ! k)\<lparr>arr_blocks := bs[i := blk]\<rparr>]"
    and stamp: "lri blk = lri_count g"
    by (elim exE conjE)
  have "bs ! i \<in> set (all_blocks g)"
    using k i by (auto simp add: all_blocks_def bs_def intro!: bexI [of _ "cache g ! k"])
  then have old: "lri (bs ! i) < lri_count g"
    using below by (simp add: stamps_below_def list_all_iff)
  have new: "line_at g' k i = blk"
    using k i by (simp add: line_at_def c)
  have "lri (line_at g k i) < lri (line_at g' k i)"
    using old stamp new by (simp add: line_at_def bs_def)
  moreover have "length (cache g') = length (cache g)"
    by (simp add: c)
  moreover have "\<forall>k'<length (cache g). length (arr_blocks (cache g' ! k')) = length (arr_blocks (cache g ! k')) \<and>
              (\<forall>i'<length (arr_blocks (cache g ! k')). (k', i') \<noteq> (k, i) \<longrightarrow>
                 line_at g' k' i' = line_at g k' i')"
    using k by (auto simp add: line_at_def c nth_list_update bs_def)
  ultimately show ?thesis
    using k i unfolding bs_def by blast
qed

text \<open>
  C5: at every point of the processing of any event sequence, no two valid lines of the
  whole cache hold equal recency stamps, and every access that succeeds (a hit, an
  install into a free line, or an install over the evicted line) changes one line only and
  gives it a stamp strictly greater than the one it had.
\<close>

theorem recency_invariant:
  "(reachable s E b g \<longrightarrow>
      unique_recency g \<and>
      (\<forall>g'. access_step g = Inr g' \<longrightarrow>
         (\<exists>k i. k < length (cache g) \<and> i < length (arr_blocks (cache g ! k)) \<and>
            lri (line_at g k i) < lri (line_at g' k i) \<and>
            length (cache g') = length (cache g) \<and>
            (\<forall>k'<length (cache g).
               length (arr_blocks (cache g' ! k')) = length (arr_blocks (cache g ! k')) \<and>
               (\<forall>i'<length (arr_blocks (cache g ! k')). (k', i') \<noteq> (k, i) \<longrightarrow>
                  line_at g' k' i' = line_at g k' i'))))) \<and>
   (cache_init s E b initial_globals = Inr g0 \<and> parse_trace tr s b v g0 = Inr g1 \<longrightarrow>
      unique_recency g1)"
proof (intro conjI impI allI)
  assume "reachable s E b g"
  then show "unique_recency g"
    using reachable_inv by (simp add: cache_inv_def)
next
  fix g'
  assume "reachable s E b g" "access_step g = Inr g'"
  then show "\<exists>k i. k < length (cache g) \<and> i < length (arr_blocks (cache g ! k)) \<and>
            lri (line_at g k i) < lri (line_at g' k i) \<and>
            length (cache g') = length (cache g) \<and>
            (\<forall>k'<length (cache g).
               length (arr_blocks (cache g' ! k')) = length (arr_blocks (cache g ! k')) \<and>
               (\<forall>i'<length (arr_blocks (cache g ! k')). (k', i') \<noteq> (k, i) \<longrightarrow>
                  line_at g' k' i' = line_at g k' i'))"
    using access_step_touch [OF reachable_inv] by blast
next
  assume "cache_init s E b initial_globals = Inr g0 \<and> parse_trace tr s b v g0 = Inr g1"
  then show "unique_recency g1"
    using reachable_inv [OF run_reachable, of s E b g0 tr v g1] by (simp add: cache_inv_def)
qed

text \<open>
  C5, witness: in the two-line set holding the stamps 0 and 1, the hit on the second line
  raises its stamp from 1 to 2 and leaves the first line as it is.
\<close>

theorem recency_invariant_witness:
  "reachable 0 2 0 two_way_full \<and> unique_recency two_way_full \<and>
   map lri (filter valid_bit (all_blocks two_way_full)) = [0, 1] \<and>
   access_step two_way_full = Inr two_way_hit \<and>
   (\<exists>k i. k < length (cache two_way_full) \<and> i < length (arr_blocks (cache two_way_full ! k)) \<and>
      lri (line_at two_way_full k i) < lri (line_at two_way_hit k i) \<and>
      length (cache two_way_hit) = length (cache two_way_full) \<and>
      (\<forall>k'<length (cache two_way_full).
         length (arr_blocks (cache two_way_hit ! k')) = length (arr_blocks (cache two_way_full ! k')) \<and>
         (\<forall>i'<length (arr_blocks (cache two_way_full ! k')). (k', i') \<noteq> (k, i) \<longrightarrow>
            line_at two_way_hit k' i' = line_at two_way_full k' i')))"
proof -
  have r: "reachable 0 2 0 two_way_full"
    using two_way_fresh_init two_way_full_run by (rule run_reachable)
  have l: "map lri (filter valid_bit (all_blocks two_way_full)) = [0, 1]"
    by (simp add: two_way_full_def all_blocks_def)
  from recency_invariant [of 0 2 0 two_way_full two_way_fresh "trace_of [(LOAD, 1), (LOAD, 2)]"
      False two_way_full] r two_way_hit_step l
  show ?thesis by blast
qed

section \<open>The access processor\<close>

text \<open>
  C4: for every event sequence with \<open>N\<close> loads and stores and \<open>M\<close> modifies, the
  final counters satisfy \<open>hits + misses = N + 2 * M\<close>.  The first part is about
  \<open>parse_trace\<close> on any array and from any state, the second about a whole run of
  \<open>main\<close>; the third says that the run does end with counters when the configuration
  has at least one line per set, \<open>s\<close> and \<open>b\<close> between 0 and 30, and the
  number of accesses fits an \<open>int\<close>.
\<close>

theorem conservation_law:
  "(parse_trace tr s b v g = Inr g' \<longrightarrow>
      hit g' + miss g' = hit g + miss g + int (count_load_store tr) + 2 * int (count_modify tr)) \<and>
   (csim_main argc s E b v (trace_of evs) = Inr (h, m, e) \<longrightarrow>
      h + m = int (length (filter (\<lambda>ev. fst ev \<noteq> MODIFY) evs)) +
              2 * int (length (filter (\<lambda>ev. fst ev = MODIFY) evs))) \<and>
   (argc \<noteq> 1 \<and> 0 \<le> s \<and> s < 31 \<and> 0 \<le> b \<and> b < 31 \<and> 1 \<le> E \<and>
    int (length (filter (\<lambda>ev. fst ev \<noteq> MODIFY) evs)) +
      2 * int (length (filter (\<lambda>ev. fst ev = MODIFY) evs)) \<le> INT_MAX \<longrightarrow>
      (\<exists>h m e. csim_main argc s E b v (trace_of evs) = Inr (h, m, e)))"
proof (intro conjI impI)
  assume "parse_trace tr s b v g = Inr g'"
  then show "hit g' + miss g' = hit g + miss g + int (count_load_store tr) + 2 * int (count_modify tr)"
    using parse_trace_loop_counts by (simp add: parse_trace_def)
next
  assume "csim_main argc s E b v (trace_of evs) = Inr (h, m, e)"
  from csim_main_Inr [OF this] obtain g0 g where
    g0: "cache_init s E b initial_globals = Inr g0"
    and g: "parse_trace_loop (trace_of evs) s b False g0 = Inr g"
    and hm: "h = hit g" "m = miss g"
    by (auto simp add: parse_trace_def)
  from parse_trace_loop_counts [OF g] cache_init_counters [OF g0] hm
  show "h + m = int (length (filter (\<lambda>ev. fst ev \<noteq> MODIFY) evs)) +
              2 * int (length (filter (\<lambda>ev. fst ev = MODIFY) evs))"
    by (simp add: counts_trace_of)
next
  assume a: "argc \<noteq> 1 \<and> 0 \<le> s \<and> s < 31 \<and> 0 \<le> b \<and> b < 31 \<and> 1 \<le> E \<and>
    int (length (filter (\<lambda>ev. fst ev \<noteq> MODIFY) evs)) +
      2 * int (length (filter (\<lambda>ev. fst ev = MODIFY) evs)) \<le> INT_MAX"
  then obtain g0 where g0: "cache_init s E b initial_globals = Inr g0"
    by (auto simp add: cache_init_def shl_int_1_def)
  have r: "reachable s E b g0" using g0 by (rule reach_init)
  have room: "room_for g0 (count_accesses (trace_of evs))"
    using a cache_init_counters [OF g0]
    by (simp add: room_for_def count_accesses_def counts_trace_of)
  from a have E: "1 \<le> E" by simp
  from parse_trace_loop_total [OF r E room trace_of_has_end]
  obtain g where "parse_trace_loop (trace_of evs) s b False g0 = Inr g" by blast
  with a g0 show "\<exists>h m e. csim_main argc s E b v (trace_of evs) = Inr (h, m, e)"
    by (simp add: csim_main_def parse_trace_def)
qed



text \<open>
  C4, witness: two loads or stores and two modifies on a direct-mapped cache of two sets
  give 2 hits and 4 misses, six in all.
\<close>

theorem conservation_law_witness:
  "csim_main 9 1 1 4 False (trace_of [(LOAD, 0), (MODIFY, 0x10), (STORE, 0x20), (MODIFY, 0x30)])
     = Inr (2, 4, 2) \<and>
   (2::int) + 4 = int (length (filter (\<lambda>ev. fst ev \<noteq> MODIFY)
                      [(LOAD, 0::64 word), (MODIFY, 0x10), (STORE, 0x20), (MODIFY, 0x30)])) +
              2 * int (length (filter (\<lambda>ev. fst ev = MODIFY)
                      [(LOAD, 0::64 word), (MODIFY, 0x10), (STORE, 0x20), (MODIFY, 0x30)]))"
proof -
  have run: "csim_main 9 1 1 4 False
      (trace_of [(LOAD, 0), (MODIFY, 0x10), (STORE, 0x20), (MODIFY, 0x30)]) = Inr (2, 4, 2)"
    by (simp add: run_defs)
  from conservation_law [where argc = 9 and s = 1 and E = 1 and b = 4 and v = False
      and evs = "[(LOAD, 0), (MODIFY, 0x10), (STORE, 0x20), (MODIFY, 0x30)]"
      and h = 2 and m = 4 and e = 2] run
  show ?thesis by simp
qed

text \<open>
  C3: a modify event makes \<open>parse_trace\<close> call \<open>parse_address\<close> once and run the
  access twice on its result, so with the same tag and set index; each access adds to the
  counters on its own, and at every point of a run the second one is a hit (hits go up
  by one, misses and evictions stay), so the two never both miss.  A single modify
  event on a fresh cache (any address, at least one line per set, \<open>s\<close> and \<open>b\<close>
  between 0 and 30) ends with hits = 1, misses = 1, evictions = 0.
\<close>

theorem modify_two_accesses:
  "parse_trace (event MODIFY a # rest) s b v g =
     (case parse_address a s b g of
        Inl e \<Rightarrow> Inl e
      | Inr g1 \<Rightarrow>
         (case access_step g1 of
            Inl e \<Rightarrow> Inl e
          | Inr g2 \<Rightarrow>
             (case access_step g2 of
                Inl e \<Rightarrow> Inl e
              | Inr g3 \<Rightarrow> parse_trace rest s b v g3))) \<and>
   (reachable s E b g \<and> parse_address a s b g = Inr g1 \<and> access_step g1 = Inr g2 \<and>
    access_step g2 = Inr g3 \<longrightarrow>
      tag_index g2 = tag_index g1 \<and>
      hit g2 + miss g2 = hit g + miss g + 1 \<and>
      hit g3 = hit g2 + 1 \<and> miss g3 = miss g2 \<and> evictions g3 = evictions g2) \<and>
   (argc \<noteq> 1 \<and> 0 \<le> s \<and> s < 31 \<and> 0 \<le> b \<and> b < 31 \<and> 1 \<le> E \<longrightarrow>
      csim_main argc s E b v (trace_of [(MODIFY, a)]) = Inr (1, 1, 0))"
proof (intro conjI impI)
  show "parse_trace (event MODIFY a # rest) s b v g =
     (case parse_address a s b g of
        Inl e \<Rightarrow> Inl e
      | Inr g1 \<Rightarrow>
         (case access_step g1 of
            Inl e \<Rightarrow> Inl e
          | Inr g2 \<Rightarrow>
             (case access_step g2 of
                Inl e \<Rightarrow> Inl e
              | Inr g3 \<Rightarrow> parse_trace rest s b v g3)))"
    by (rule parse_trace_modify)
next
  assume h: "reachable s E b g \<and> parse_address a s b g = Inr g1 \<and> access_step g1 = Inr g2 \<and>
    access_step g2 = Inr g3"
  then have r1: "reachable s E b g1" using reach_address by blast
  have shape1: "shape_ok g1" using reachable_inv [OF r1] by (simp add: cache_inv_def)
  from h have g2: "access_step g1 = Inr g2" and g3: "access_step g2 = Inr g3"
    and g1: "parse_address a s b g = Inr g1" by simp_all
  show "tag_index g2 = tag_index g1" using shape1 g2 by (rule shape_ok_access(3))
  show "hit g2 + miss g2 = hit g + miss g + 1"
    using access_step_counts(1) [OF g2] parse_address_counts [OF g1] by simp
  from second_access_hits [OF shape1 g2 g3]
  show "hit g3 = hit g2 + 1" "miss g3 = miss g2" "evictions g3 = evictions g2" by simp_all
next
  assume "argc \<noteq> 1 \<and> 0 \<le> s \<and> s < 31 \<and> 0 \<le> b \<and> b < 31 \<and> 1 \<le> E"
  then show "csim_main argc s E b v (trace_of [(MODIFY, a)]) = Inr (1, 1, 0)"
    using modify_on_fresh_cache by blast
qed

lemma two_way_asked_steps:
  "parse_address 3 0 0 two_way_full = Inr two_way_asked"
  "access_step two_way_asked = Inr two_way_evicted"
  "access_step two_way_evicted = Inr two_way_evicted_hit"
  by (simp_all add: two_way_asked_def two_way_full_def two_way_evicted_def two_way_evicted_hit_def
      run_defs)

text \<open>
  C3, witness: a modify of address 3 on the full two-line set misses with an eviction and
  then hits; a modify on a fresh direct-mapped cache gives the counters 1, 1, 0.
\<close>

theorem modify_two_accesses_witness:
  "reachable 0 2 0 two_way_full \<and> parse_address 3 0 0 two_way_full = Inr two_way_asked \<and>
   access_step two_way_asked = Inr two_way_evicted \<and>
   access_step two_way_evicted = Inr two_way_evicted_hit \<and>
   tag_index two_way_evicted = tag_index two_way_asked \<and>
   miss two_way_evicted = miss two_way_full + 1 \<and>
   evictions two_way_evicted = evictions two_way_full + 1 \<and>
   hit two_way_evicted_hit = hit two_way_evicted + 1 \<and>
   miss two_way_evicted_hit = miss two_way_evicted \<and>
   evictions two_way_evicted_hit = evictions two_way_evicted \<and>
   csim_main 9 4 1 4 False (trace_of [(MODIFY, 0x7ff0)]) = Inr (1, 1, 0)"
proof -
  have r: "reachable 0 2 0 two_way_full"
    using two_way_fresh_init two_way_full_run by (rule run_reachable)
  have c: "miss two_way_evicted = miss two_way_full + 1"
    "evictions two_way_evicted = evictions two_way_full + 1"
    by (simp_all add: two_way_evicted_def two_way_full_def)
  have t: "tag_index two_way_evicted = tag_index two_way_asked"
    by (simp add: two_way_evicted_def two_way_asked_def)
  note second = modify_two_accesses [where s = 0 and E = 2 and b = 0 and g = two_way_full
      and a = 3 and ?g1.0 = two_way_asked and ?g2.0 = two_way_evicted
      and ?g3.0 = two_way_evicted_hit, THEN conjunct2, THEN conjunct1]
  note fresh = modify_two_accesses [where s = 4 and E = 1 and b = 4 and argc = 9 and v = False
      and a = "0x7ff0", THEN conjunct2, THEN conjunct2]
  from fresh have "csim_main 9 4 1 4 False (trace_of [(MODIFY, 0x7ff0)]) = Inr (1, 1, 0)"
    by simp
  moreover from second r two_way_asked_steps
  have "hit two_way_evicted_hit = hit two_way_evicted + 1 \<and>
      miss two_way_evicted_hit = miss two_way_evicted \<and>
      evictions two_way_evicted_hit = evictions two_way_evicted"
    by blast
  ultimately show ?thesis
    using r two_way_asked_steps c t by blast
qed

section \<open>The replacement engine\<close>

text \<open>
  C1: one access, on a set of \<open>lines\<close> lines (at least one) and with counters below
  \<open>INT_MAX\<close>, does the first of three things that applies.  If some line is valid and
  holds the tag, the first such line (in array order) gets the value of the recency counter
  as its stamp, and \<open>hit\<close> and the counter go up by one.  Otherwise, if some line is
  invalid, the first such line gets the tag, becomes valid and gets the stamp, and
  \<open>miss\<close> and the counter go up by one.  Otherwise the line with the least stamp, the
  first one where several are least (the comparison is \<open><\<close>), gets the tag and the
  stamp and stays valid, and \<open>miss\<close>, \<open>evictions\<close> and the counter go up by one.
\<close>

theorem access_step_algorithm:
  fixes g :: globals
  defines "t \<equiv> fst (tag_index g)" and "k \<equiv> unat (snd (tag_index g))"
  defines "bs \<equiv> arr_blocks (cache g ! k)"
  assumes k: "k < length (cache g)"
    and len: "int (length bs) = lines g" and pos: "0 < lines g"
    and room: "hit g < INT_MAX" "miss g < INT_MAX" "evictions g < INT_MAX" "lri_count g < INT_MAX"
  shows
    "((\<exists>i<length bs. valid_bit (bs ! i) \<and> tag (bs ! i) = t) \<longrightarrow>
        (\<exists>i<length bs. valid_bit (bs ! i) \<and> tag (bs ! i) = t \<and>
           (\<forall>j<i. \<not> (valid_bit (bs ! j) \<and> tag (bs ! j) = t)) \<and>
           access_step g =
             Inr (set_blocks k (bs[i := (bs ! i)\<lparr>lri := lri_count g\<rparr>])
                    (g\<lparr>hit := hit g + 1, lri_count := lri_count g + 1\<rparr>)))) \<and>
     (\<not> (\<exists>i<length bs. valid_bit (bs ! i) \<and> tag (bs ! i) = t) \<and>
      (\<exists>i<length bs. \<not> valid_bit (bs ! i)) \<longrightarrow>
        (\<exists>i<length bs. \<not> valid_bit (bs ! i) \<and> (\<forall>j<i. valid_bit (bs ! j)) \<and>
           access_step g =
             Inr (set_blocks k
                    (bs[i := (bs ! i)\<lparr>tag := t, valid_bit := True, lri := lri_count g\<rparr>])
                    (g\<lparr>miss := miss g + 1, lri_count := lri_count g + 1\<rparr>)))) \<and>
     (\<not> (\<exists>i<length bs. valid_bit (bs ! i) \<and> tag (bs ! i) = t) \<and>
      \<not> (\<exists>i<length bs. \<not> valid_bit (bs ! i)) \<longrightarrow>
        (\<exists>m<length bs. (\<forall>j<length bs. lri (bs ! m) \<le> lri (bs ! j)) \<and>
           (\<forall>j<m. lri (bs ! m) < lri (bs ! j)) \<and> valid_bit (bs ! m) \<and>
           access_step g =
             Inr (set_blocks k (bs[m := (bs ! m)\<lparr>tag := t, lri := lri_count g\<rparr>])
                    (g\<lparr>miss := miss g + 1, evictions := evictions g + 1,
                       lri_count := lri_count g + 1\<rparr>))))"
proof -
  have le: "lines g \<le> int (length bs)" and pos': "0 < length bs"
    using len pos by auto
  have inr: "j < length bs \<longleftrightarrow> int j < lines g" for j
    using len by auto
  obtain r where r: "find_hit bs t (lines g) 0 = Inr r"
    using find_hit_total [OF le] by blast
  obtain e where e: "find_empty bs (lines g) 0 = Inr e"
    using find_empty_total [OF le] by blast
  obtain m where m: "(if 1 < lines g then find_min bs (lines g) 1 0 else Inr 0) = Inr m"
    using find_min_total [OF le pos', of 1] by (cases "1 < lines g") auto
  have mprops: "m < length bs \<and> (\<forall>j<length bs. lri (bs ! m) \<le> lri (bs ! j)) \<and>
      (\<forall>j<m. lri (bs ! m) < lri (bs ! j))"
  proof (cases "1 < lines g")
    case False
    with m pos len have "m = 0" "length bs = 1" by auto
    then show ?thesis by simp
  next
    case True
    with m have fm: "find_min bs (lines g) 1 0 = Inr m" by simp
    from find_min_result [OF fm] True
    have p: "int m < lines g" "lri (bs ! m) \<le> lri (bs ! 0)"
      "m \<noteq> 0 \<Longrightarrow> lri (bs ! m) < lri (bs ! 0)"
      "\<And>l. 1 \<le> l \<Longrightarrow> int l < lines g \<Longrightarrow> lri (bs ! m) \<le> lri (bs ! l)"
      "\<And>l. 1 \<le> l \<Longrightarrow> l < m \<Longrightarrow> lri (bs ! m) < lri (bs ! l)"
      by simp_all
    have "lri (bs ! m) \<le> lri (bs ! j)" if "j < length bs" for j
      using that p(2) p(4) [of j] inr [of j] by (cases "j = 0") auto
    moreover have "lri (bs ! m) < lri (bs ! j)" if "j < m" for j
      using that p(3) p(5) [of j] by (cases "j = 0") auto
    ultimately show ?thesis using p(1) inr [of m] by simp
  qed
  have hit_case: ?thesis if h: "\<exists>i<length bs. valid_bit (bs ! i) \<and> tag (bs ! i) = t"
  proof -
    have "r \<noteq> None"
    proof
      assume "r = None"
      with r find_hit_None [of bs t "lines g" 0] h inr show False by auto
    qed
    then obtain i where i: "find_hit bs t (lines g) 0 = Inr (Some i)"
      using r by auto
    from find_hit_Some [OF i]
    have "i < length bs \<and> valid_bit (bs ! i) \<and> tag (bs ! i) = t \<and>
           (\<forall>j<i. \<not> (valid_bit (bs ! j) \<and> tag (bs ! j) = t))"
      by auto
    moreover have "access_step g =
             Inr (set_blocks k (bs[i := (bs ! i)\<lparr>lri := lri_count g\<rparr>])
                    (g\<lparr>hit := hit g + 1, lri_count := lri_count g + 1\<rparr>))"
      using access_step_hit [of g i] k i room unfolding t_def k_def bs_def by simp
    ultimately show ?thesis using h by blast
  qed
  have miss_case: ?thesis if nh: "\<not> (\<exists>i<length bs. valid_bit (bs ! i) \<and> tag (bs ! i) = t)"
  proof -
    have rn: "find_hit bs t (lines g) 0 = Inr None"
    proof (cases r)
      case None
      with r show ?thesis by simp
    next
      case (Some i)
      with r find_hit_Some [of bs t "lines g" 0 i] nh show ?thesis by auto
    qed
    show ?thesis
    proof (cases "\<exists>i<length bs. \<not> valid_bit (bs ! i)")
      case True
      have "e \<noteq> None"
      proof
        assume "e = None"
        with e find_empty_None [of bs "lines g" 0] True inr show False by auto
      qed
      then obtain i where i: "find_empty bs (lines g) 0 = Inr (Some i)"
        using e by auto
      from find_empty_Some [OF i]
      have "i < length bs \<and> \<not> valid_bit (bs ! i) \<and> (\<forall>j<i. valid_bit (bs ! j))"
        by auto
      moreover have "access_step g =
             Inr (set_blocks k
                    (bs[i := (bs ! i)\<lparr>tag := t, valid_bit := True, lri := lri_count g\<rparr>])
                    (g\<lparr>miss := miss g + 1, lri_count := lri_count g + 1\<rparr>))"
        using access_step_fill [of g i] k rn i room unfolding t_def k_def bs_def by simp
      ultimately show ?thesis using nh True by blast
    next
      case False
      have en: "find_empty bs (lines g) 0 = Inr None"
      proof (cases e)
        case None
        with e show ?thesis by simp
      next
        case (Some i)
        with e find_empty_Some [of bs "lines g" 0 i] False show ?thesis by auto
      qed
      have "access_step g =
             Inr (set_blocks k (bs[m := (bs ! m)\<lparr>tag := t, lri := lri_count g\<rparr>])
                    (g\<lparr>miss := miss g + 1, evictions := evictions g + 1,
                       lri_count := lri_count g + 1\<rparr>))"
        using access_step_evict [of g m] k rn en m mprops room unfolding t_def k_def bs_def
        by simp
      moreover have "valid_bit (bs ! m)" using False mprops by blast
      ultimately show ?thesis using nh False mprops by blast
    qed
  qed
  from hit_case miss_case show ?thesis by blast
qed

text \<open>
  C1, witness: on the two-line set, a hit on the second line, a fill of the first free
  line, and the eviction of the line with the least stamp.
\<close>

theorem access_step_algorithm_witness:
  "access_step two_way_full = Inr two_way_hit \<and>
   access_step two_way_fresh = Inr two_way_filled \<and>
   access_step two_way_asked = Inr two_way_evicted"
proof -
  have hit: "access_step two_way_full = Inr two_way_hit"
  proof -
    let ?g = two_way_full
    let ?bs = "arr_blocks (cache ?g ! unat (snd (tag_index ?g)))"
    have bs: "?bs = [\<lparr>valid_bit = True, tag = 1, lri = 0\<rparr>, \<lparr>valid_bit = True, tag = 2, lri = 1\<rparr>]"
      by (simp add: two_way_full_def)
    have p: "unat (snd (tag_index ?g)) < length (cache ?g)" "int (length ?bs) = lines ?g"
      "0 < lines ?g" "hit ?g < INT_MAX" "miss ?g < INT_MAX" "evictions ?g < INT_MAX"
      "lri_count ?g < INT_MAX"
      by (simp_all add: two_way_full_def INT_MAX_def)
    have ex: "\<exists>i<length ?bs. valid_bit (?bs ! i) \<and> tag (?bs ! i) = fst (tag_index ?g)"
      by (intro exI [of _ 1]) (simp add: two_way_full_def)
    from access_step_algorithm [OF p, THEN conjunct1, rule_format, OF ex]
    obtain i where i: "i < length ?bs" and ti: "tag (?bs ! i) = fst (tag_index ?g)"
      and a: "access_step ?g =
        Inr (set_blocks (unat (snd (tag_index ?g))) (?bs[i := (?bs ! i)\<lparr>lri := lri_count ?g\<rparr>])
               (?g\<lparr>hit := hit ?g + 1, lri_count := lri_count ?g + 1\<rparr>))"
      by blast
    from i ti have "i = Suc 0"
      unfolding bs using less_two_cases [of i] by (auto simp add: two_way_full_def)
    with a show ?thesis
      by (simp add: two_way_full_def two_way_hit_def set_blocks_def)
  qed
  have fill: "access_step two_way_fresh = Inr two_way_filled"
  proof -
    let ?g = two_way_fresh
    let ?bs = "arr_blocks (cache ?g ! unat (snd (tag_index ?g)))"
    have bs: "?bs = [\<lparr>valid_bit = False, tag = - 1, lri = - 1\<rparr>,
                     \<lparr>valid_bit = False, tag = - 1, lri = - 1\<rparr>]"
      by (simp add: two_way_fresh_def)
    have p: "unat (snd (tag_index ?g)) < length (cache ?g)" "int (length ?bs) = lines ?g"
      "0 < lines ?g" "hit ?g < INT_MAX" "miss ?g < INT_MAX" "evictions ?g < INT_MAX"
      "lri_count ?g < INT_MAX"
      by (simp_all add: two_way_fresh_def INT_MAX_def)
    have ex: "\<not> (\<exists>i<length ?bs. valid_bit (?bs ! i) \<and> tag (?bs ! i) = fst (tag_index ?g)) \<and>
        (\<exists>i<length ?bs. \<not> valid_bit (?bs ! i))"
      unfolding bs ex_less_two by simp
    from access_step_algorithm [OF p, THEN conjunct2, THEN conjunct1, rule_format, OF ex]
    obtain i where i: "i < length ?bs" and vi: "\<forall>j<i. valid_bit (?bs ! j)"
      and a: "access_step ?g =
        Inr (set_blocks (unat (snd (tag_index ?g)))
               (?bs[i := (?bs ! i)\<lparr>tag := fst (tag_index ?g), valid_bit := True,
                                     lri := lri_count ?g\<rparr>])
               (?g\<lparr>miss := miss ?g + 1, lri_count := lri_count ?g + 1\<rparr>))"
      by blast
    from i vi have "i = 0"
      unfolding bs using less_two_cases [of i] by auto
    with a show ?thesis
      by (simp add: two_way_fresh_def two_way_filled_def set_blocks_def)
  qed
  have evict: "access_step two_way_asked = Inr two_way_evicted"
  proof -
    let ?g = two_way_asked
    let ?bs = "arr_blocks (cache ?g ! unat (snd (tag_index ?g)))"
    have bs: "?bs = [\<lparr>valid_bit = True, tag = 1, lri = 0\<rparr>, \<lparr>valid_bit = True, tag = 2, lri = 1\<rparr>]"
      by (simp add: two_way_asked_def two_way_full_def)
    have p: "unat (snd (tag_index ?g)) < length (cache ?g)" "int (length ?bs) = lines ?g"
      "0 < lines ?g" "hit ?g < INT_MAX" "miss ?g < INT_MAX" "evictions ?g < INT_MAX"
      "lri_count ?g < INT_MAX"
      by (simp_all add: two_way_asked_def two_way_full_def INT_MAX_def)
    have t: "fst (tag_index ?g) = 3" by (simp add: two_way_asked_def)
    have ex: "\<not> (\<exists>i<length ?bs. valid_bit (?bs ! i) \<and> tag (?bs ! i) = fst (tag_index ?g)) \<and>
        \<not> (\<exists>i<length ?bs. \<not> valid_bit (?bs ! i))"
      unfolding bs t ex_less_two by simp
    from access_step_algorithm [OF p, THEN conjunct2, THEN conjunct2, rule_format, OF ex]
    obtain m where i: "m < length ?bs" and mi: "\<forall>j<length ?bs. lri (?bs ! m) \<le> lri (?bs ! j)"
      and a: "access_step ?g =
        Inr (set_blocks (unat (snd (tag_index ?g)))
               (?bs[m := (?bs ! m)\<lparr>tag := fst (tag_index ?g), lri := lri_count ?g\<rparr>])
               (?g\<lparr>miss := miss ?g + 1, evictions := evictions ?g + 1,
                   lri_count := lri_count ?g + 1\<rparr>))"
      by blast
    from mi have "lri (?bs ! m) \<le> lri (?bs ! 0)" unfolding bs by (auto dest: spec [of _ 0])
    with i have "m = 0"
      unfolding bs using less_two_cases [of m] by auto
    with a show ?thesis
      by (simp add: two_way_asked_def two_way_full_def two_way_evicted_def set_blocks_def)
  qed
  from hit fill evict show ?thesis by simp
qed

section \<open>Tags of 32 bits\<close>

text \<open>
  C10: when \<open>s + b < 64\<close> and two addresses agree on the \<open>s\<close> bits above the
  block offset and on the low 32 bits of \<open>address >> (s + b)\<close>, \<open>parse_address\<close>
  leaves the same tag and set index for both: the tag it stores is the low 32 bits of
  \<open>address >> (s + b)\<close>.  So \<open>parse_trace\<close> does the same for an event at either
  address, and at every point of a run an access to the second address right after one to
  the first is a hit.
\<close>

theorem tag_low_32_bits:
  assumes "0 \<le> s" "0 \<le> b" "s + b < 64"
    and "take_bit (nat s) (drop_bit (nat b) a1) = take_bit (nat s) (drop_bit (nat b) a2)"
    and "take_bit 32 (drop_bit (nat (s + b)) a1) = take_bit 32 (drop_bit (nat (s + b)) a2)"
  shows "parse_address a1 s b g = parse_address a2 s b g \<and>
    (\<exists>g'. parse_address a1 s b g = Inr g' \<and>
          fst (tag_index g') = ucast (drop_bit (nat (s + b)) a1) \<and>
          fst (tag_index g') = ucast (drop_bit (nat (s + b)) a2)) \<and>
    parse_trace (event k a1 # rest) s b v g = parse_trace (event k a2 # rest) s b v g \<and>
    (reachable s E b g \<and> parse_address a1 s b g = Inr g1 \<and> access_step g1 = Inr g2 \<and>
     parse_address a2 s b g2 = Inr g3 \<and> access_step g3 = Inr g4 \<longrightarrow>
       hit g4 = hit g2 + 1 \<and> miss g4 = miss g2 \<and> evictions g4 = evictions g2)"
proof (intro conjI impI)
  note same_result = parse_address_alias [OF assms]
  show "parse_address a1 s b g = parse_address a2 s b g" by (rule same_result)
  show "\<exists>g'. parse_address a1 s b g = Inr g' \<and>
          fst (tag_index g') = ucast (drop_bit (nat (s + b)) a1) \<and>
          fst (tag_index g') = ucast (drop_bit (nat (s + b)) a2)"
    using ucast_low_bits [OF assms(5)] by (simp add: parse_address_eq [OF assms(1-3)])
  show "parse_trace (event k a1 # rest) s b v g = parse_trace (event k a2 # rest) s b v g"
    using same_result by (rule parse_trace_event_cong)
  assume h: "reachable s E b g \<and> parse_address a1 s b g = Inr g1 \<and> access_step g1 = Inr g2 \<and>
     parse_address a2 s b g2 = Inr g3 \<and> access_step g3 = Inr g4"
  then have r1: "reachable s E b g1" using reach_address by blast
  have shape1: "shape_ok g1" using reachable_inv [OF r1] by (simp add: cache_inv_def)
  from h have g1: "parse_address a1 s b g = Inr g1" and g2: "access_step g1 = Inr g2"
    and g3: "parse_address a2 s b g2 = Inr g3" and g4: "access_step g3 = Inr g4"
    by simp_all
  have t1: "tag_index g1 = (ucast (drop_bit (nat (s + b)) a1),
                              ucast (take_bit (nat s) (drop_bit (nat b) a1)))"
    using g1 by (auto simp add: parse_address_eq [OF assms(1-3)])
  have t2: "tag_index g2 = tag_index g1" using shape1 g2 by (rule shape_ok_access(3))
  have "parse_address a1 s b g2 = Inr g3" using g3 same_result [of g2] by simp
  then have "g3 = g2\<lparr>tag_index := tag_index g2\<rparr>"
    using t1 t2 by (simp add: parse_address_eq [OF assms(1-3)])
  then have "g3 = g2" by simp
  with g4 have "access_step g2 = Inr g4" by simp
  from second_access_hits [OF shape1 g2 this]
  show "hit g4 = hit g2 + 1" "miss g4 = miss g2" "evictions g4 = evictions g2" by simp_all
qed

text \<open>
  C10, witness: with \<open>s = 2\<close> and \<open>b = 3\<close> the addresses \<open>0x28\<close> and
  \<open>0x2000000028\<close> both give tag 1 and set 1, and the load from the second hits the
  line that the load from the first installed.
\<close>

theorem tag_low_32_bits_witness:
  "(0::int) \<le> 2 \<and> (0::int) \<le> 3 \<and> (2::int) + 3 < 64 \<and>
   (0x28 :: 64 word) \<noteq> 0x2000000028 \<and>
   take_bit 2 (drop_bit 3 (0x28 :: 64 word)) = take_bit 2 (drop_bit 3 (0x2000000028 :: 64 word)) \<and>
   take_bit 32 (drop_bit 5 (0x28 :: 64 word)) = take_bit 32 (drop_bit 5 (0x2000000028 :: 64 word)) \<and>
   parse_address 0x28 2 3 initial_globals = parse_address 0x2000000028 2 3 initial_globals \<and>
   parse_address 0x2000000028 2 3 initial_globals = Inr (initial_globals\<lparr>tag_index := (1, 1)\<rparr>) \<and>
   csim_main 9 2 1 3 False (trace_of [(LOAD, 0x28), (LOAD, 0x2000000028)]) = Inr (1, 1, 0)"
proof -
  have a: "take_bit 2 (drop_bit 3 (0x28 :: 64 word)) = take_bit 2 (drop_bit 3 (0x2000000028 :: 64 word))"
    by simp
  have t: "take_bit 32 (drop_bit 5 (0x28 :: 64 word)) = take_bit 32 (drop_bit 5 (0x2000000028 :: 64 word))"
    by simp
  have run: "csim_main 9 2 1 3 False (trace_of [(LOAD, 0x28), (LOAD, 0x2000000028)]) = Inr (1, 1, 0)"
    by code_simp
  have p: "parse_address 0x2000000028 2 3 initial_globals = Inr (initial_globals\<lparr>tag_index := (1, 1)\<rparr>)"
    by code_simp
  note th = tag_low_32_bits [where s = 2 and b = 3 and ?a1.0 = "0x28" and ?a2.0 = "0x2000000028"
      and g = initial_globals, THEN conjunct1]
  have "parse_address 0x28 2 3 initial_globals = parse_address 0x2000000028 2 3 initial_globals"
    using a t by (intro th) simp_all
  with a t run p show ?thesis by simp
qed

end
